theory Spec2Isabelle
  imports Main "HOL-Library.Sublist"
begin

section \<open>The keyring provider of omnivault-keyring\<close>

text \<open>
  The Go package \<^verbatim>\<open>keyring\<close> wraps an OS credential store (reached through
  \<^verbatim>\<open>zalando/go-keyring\<close>) behind the \<^verbatim>\<open>vault.Vault\<close> interface. Go strings are byte
  sequences and so are Isabelle strings. The credential store, the JSON library and the
  error callback are outside the package: the store is a state with scripted failures and a
  log of the calls made to it, the JSON library is a parameter of every operation, and the
  calls made to the callback are logged.
\<close>

subsection \<open>Strings\<close>

text \<open>\<^verbatim>\<open>strings.HasPrefix(s, prefix)\<close>: \<^verbatim>\<open>len(s) >= len(prefix) && s[:len(prefix)] == prefix\<close>.\<close>

definition HasPrefix :: "string \<Rightarrow> string \<Rightarrow> bool" where
  "HasPrefix s pre = (length pre \<le> length s \<and> take (length pre) s = pre)"

subsection \<open>Secrets and errors (package vault)\<close>

text \<open>
  \<^verbatim>\<open>vault.Secret\<close> and \<^verbatim>\<open>vault.Metadata\<close> with the fields the provider and the
  specification use. A Go \<^verbatim>\<open>map[string]string\<close> is the association list of its entries;
  the map it denotes is \<open>map_of\<close> of the list, and the nil map is the empty list.
\<close>

record Metadata =
  Provider :: string
  Path :: string
  Tags :: "(string \<times> string) list"

record Secret =
  Value :: string
  Fields :: "(string \<times> string) list"
  Metadata :: Metadata

text \<open>Modelled from the spec: \<^verbatim>\<open>Secret.String()\<close>, the plain encoding, which
  "returns primaryValue verbatim".\<close>

definition Secret_String :: "Secret \<Rightarrow> string" where
  "Secret_String secret = Value secret"

text \<open>Errors of the credential store: \<^verbatim>\<open>zkeyring.ErrNotFound\<close> and any other failure.\<close>

datatype kerr = ErrNotFound | ErrBackend string

text \<open>Errors of \<^verbatim>\<open>encoding/json\<close>.\<close>

datatype jerr = SyntaxError | UnmarshalTypeError | MarshalError

text \<open>The Go \<^verbatim>\<open>error\<close> values the provider wraps or reports.\<close>

datatype err = ErrClosed | ErrSecretNotFound | Keyring kerr | Json jerr

record VaultError =
  Op :: string
  ErrPath :: string
  ErrProvider :: string
  Err :: err

definition NewVaultError :: "string \<Rightarrow> string \<Rightarrow> string \<Rightarrow> err \<Rightarrow> VaultError" where
  "NewVaultError op path provider e =
     \<lparr>Op = op, ErrPath = path, ErrProvider = provider, Err = e\<rparr>"

subsection \<open>The JSON library as the provider uses it\<close>

text \<open>
  \<^verbatim>\<open>json.Marshal(secret)\<close>, \<^verbatim>\<open>json.Unmarshal([]byte(value), secret)\<close> (which
  writes into an existing secret and may have written part of it when it reports an error),
  \<^verbatim>\<open>json.Marshal(index)\<close> and \<^verbatim>\<open>json.Unmarshal([]byte(value), &index)\<close> into a
  fresh slice.
\<close>

record codec =
  marshal_secret :: "Secret \<Rightarrow> jerr + string"
  unmarshal_secret :: "string \<Rightarrow> Secret \<Rightarrow> jerr option \<times> Secret"
  marshal_index :: "string list \<Rightarrow> jerr + string"
  unmarshal_index :: "string \<Rightarrow> jerr + string list"

subsection \<open>A model of \<^verbatim>\<open>encoding/json\<close>\<close>

text \<open>
  \<open>go_json\<close> instantiates the JSON library: the encoder of Go 1.24 with HTML escaping on
  (as \<^verbatim>\<open>json.Marshal\<close> has it), a parser of the JSON grammar, and the decoding of a
  parsed value into a secret or a list of strings. The declaration of \<^verbatim>\<open>vault.Secret\<close>
  is not part of the package; the model takes its JSON names to be \<^verbatim>\<open>value\<close>,
  \<^verbatim>\<open>fields\<close> and \<^verbatim>\<open>metadata\<close> (with \<^verbatim>\<open>provider\<close>, \<^verbatim>\<open>path\<close>,
  \<^verbatim>\<open>tags\<close>), each left out when empty. A key that matches no field name exactly
  matches it under \<^verbatim>\<open>foldName\<close>. Members under other names are skipped (the model
  knows no further field of the declaration), and the nesting limit of the decoder is not
  modelled.
\<close>

paragraph \<open>UTF-8\<close>

text \<open>\<open>rune_len s\<close> is the width of the encoding at the head of \<open>s\<close> as
  \<^verbatim>\<open>utf8.DecodeRuneInString\<close> finds it, and 0 where it returns \<^verbatim>\<open>RuneError\<close> of
  width 1.\<close>

definition byte :: "char \<Rightarrow> nat" where
  "byte c = of_char c"

definition dquote :: char where
  "dquote = CHR 0x22"

definition backslash :: char where
  "backslash = CHR 0x5C"

definition replacement :: string where
  "replacement = [CHR 0xEF, CHR 0xBF, CHR 0xBD]"

definition cont :: "char \<Rightarrow> bool" where
  "cont c = (0x80 \<le> byte c \<and> byte c \<le> 0xBF)"

definition second_ok :: "nat \<Rightarrow> char \<Rightarrow> bool" where
  "second_ok b c =
     (if b = 0xE0 then 0xA0 \<le> byte c \<and> byte c \<le> 0xBF
      else if b = 0xED then 0x80 \<le> byte c \<and> byte c \<le> 0x9F
      else if b = 0xF0 then 0x90 \<le> byte c \<and> byte c \<le> 0xBF
      else if b = 0xF4 then 0x80 \<le> byte c \<and> byte c \<le> 0x8F
      else cont c)"

definition rune_len :: "string \<Rightarrow> nat" where
  "rune_len s =
     (case s of
        [] \<Rightarrow> 0
      | c # cs \<Rightarrow>
          let b = byte c in
          if b < 0x80 then 1
          else if b < 0xC2 then 0
          else if b < 0xE0 then
            (case cs of c1 # _ \<Rightarrow> if cont c1 then 2 else 0 | _ \<Rightarrow> 0)
          else if b < 0xF0 then
            (case cs of c1 # c2 # _ \<Rightarrow> if second_ok b c1 \<and> cont c2 then 3 else 0 | _ \<Rightarrow> 0)
          else if b < 0xF5 then
            (case cs of
               c1 # c2 # c3 # _ \<Rightarrow> if second_ok b c1 \<and> cont c2 \<and> cont c3 then 4 else 0
             | _ \<Rightarrow> 0)
          else 0)"

paragraph \<open>Encoding strings: \<^verbatim>\<open>appendString\<close>\<close>

definition hex :: "nat \<Rightarrow> char" where
  "hex n = ''0123456789abcdef'' ! n"

definition htmlSafe :: "char \<Rightarrow> bool" where
  "htmlSafe c =
     (0x20 \<le> byte c \<and> byte c < 0x80 \<and> c \<noteq> dquote \<and> c \<noteq> backslash \<and>
      c \<noteq> CHR ''&'' \<and> c \<noteq> CHR ''<'' \<and> c \<noteq> CHR ''>'')"

definition escape_ascii :: "char \<Rightarrow> string" where
  "escape_ascii c =
     (if c = backslash \<or> c = dquote then [backslash, c]
      else if c = CHR 0x08 then [backslash, CHR ''b'']
      else if c = CHR 0x0C then [backslash, CHR ''f'']
      else if c = CHR 0x0A then [backslash, CHR ''n'']
      else if c = CHR 0x0D then [backslash, CHR ''r'']
      else if c = CHR 0x09 then [backslash, CHR ''t'']
      else [backslash, CHR ''u'', CHR ''0'', CHR ''0'', hex (byte c div 16), hex (byte c mod 16)])"

function appendString :: "string \<Rightarrow> string" where
  "appendString [] = []"
| "appendString (c # cs) =
     (if byte c < 0x80 then
        (if htmlSafe c then [c] else escape_ascii c) @ appendString cs
      else
        (let n = rune_len (c # cs) in
         if n = 0 then backslash # ''ufffd'' @ appendString cs
         else if take n (c # cs) = [CHR 0xE2, CHR 0x80, CHR 0xA8]
           then backslash # ''u2028'' @ appendString (drop (n - 1) cs)
         else if take n (c # cs) = [CHR 0xE2, CHR 0x80, CHR 0xA9]
           then backslash # ''u2029'' @ appendString (drop (n - 1) cs)
         else take n (c # cs) @ appendString (drop (n - 1) cs)))"
  by pat_completeness auto
termination
  by (relation "measure length") auto

definition enc_string :: "string \<Rightarrow> string" where
  "enc_string s = dquote # appendString s @ [dquote]"

text \<open>What the encoder makes of a string ("coerced to valid UTF-8, replacing invalid bytes
  with the Unicode replacement rune"), and the strings it leaves alone
  (\<^verbatim>\<open>utf8.ValidString\<close>).\<close>

function coerce_utf8 :: "string \<Rightarrow> string" where
  "coerce_utf8 [] = []"
| "coerce_utf8 (c # cs) =
     (if byte c < 0x80 then c # coerce_utf8 cs
      else
        (let n = rune_len (c # cs) in
         if n = 0 then replacement @ coerce_utf8 cs
         else take n (c # cs) @ coerce_utf8 (drop (n - 1) cs)))"
  by pat_completeness auto
termination
  by (relation "measure length") auto

function utf8_valid :: "string \<Rightarrow> bool" where
  "utf8_valid [] = True"
| "utf8_valid (c # cs) =
     (if byte c < 0x80 then utf8_valid cs
      else (let n = rune_len (c # cs) in n \<noteq> 0 \<and> utf8_valid (drop (n - 1) cs)))"
  by pat_completeness auto
termination
  by (relation "measure length") auto

paragraph \<open>Decoding strings: \<^verbatim>\<open>unquote\<close>, started after the opening quote\<close>

definition hexval :: "char \<Rightarrow> nat option" where
  "hexval c =
     (let b = byte c in
      if 0x30 \<le> b \<and> b \<le> 0x39 then Some (b - 0x30)
      else if 0x61 \<le> b \<and> b \<le> 0x66 then Some (b - 0x61 + 10)
      else if 0x41 \<le> b \<and> b \<le> 0x46 then Some (b - 0x41 + 10)
      else None)"

definition getu4 :: "string \<Rightarrow> nat option" where
  "getu4 s =
     (case s of
        b # u # h1 # h2 # h3 # h4 # _ \<Rightarrow>
          if b = backslash \<and> u = CHR ''u'' then
            (case (hexval h1, hexval h2, hexval h3, hexval h4) of
               (Some d1, Some d2, Some d3, Some d4) \<Rightarrow> Some (((d1 * 16 + d2) * 16 + d3) * 16 + d4)
             | _ \<Rightarrow> None)
          else None
      | _ \<Rightarrow> None)"

definition encodeRune :: "nat \<Rightarrow> string" where
  "encodeRune r =
     (if r < 0x80 then [char_of r]
      else if r < 0x800 then [char_of (0xC0 + r div 64), char_of (0x80 + r mod 64)]
      else if (0xD800 \<le> r \<and> r < 0xE000) \<or> 0x10FFFF < r then replacement
      else if r < 0x10000 then
        [char_of (0xE0 + r div 4096), char_of (0x80 + r div 64 mod 64), char_of (0x80 + r mod 64)]
      else
        [char_of (0xF0 + r div 262144), char_of (0x80 + r div 4096 mod 64),
         char_of (0x80 + r div 64 mod 64), char_of (0x80 + r mod 64)])"

definition unescape :: "char \<Rightarrow> char option" where
  "unescape e =
     (if e = dquote \<or> e = backslash \<or> e = CHR ''/'' then Some e
      else if e = CHR ''b'' then Some (CHR 0x08)
      else if e = CHR ''f'' then Some (CHR 0x0C)
      else if e = CHR ''n'' then Some (CHR 0x0A)
      else if e = CHR ''r'' then Some (CHR 0x0D)
      else if e = CHR ''t'' then Some (CHR 0x09)
      else None)"

definition push :: "string \<Rightarrow> (string \<times> string) option \<Rightarrow> (string \<times> string) option" where
  "push d res = (case res of None \<Rightarrow> None | Some (s, rest) \<Rightarrow> Some (d @ s, rest))"

function unquote :: "string \<Rightarrow> (string \<times> string) option" where
  "unquote [] = None"
| "unquote (c # cs) =
     (if c = dquote then Some ([], cs)
      else if c = backslash then
        (case cs of
           [] \<Rightarrow> None
         | e # r \<Rightarrow>
             if e = CHR ''u'' then
               (case getu4 (c # cs) of
                  None \<Rightarrow> None
                | Some rr \<Rightarrow>
                    if 0xD800 \<le> rr \<and> rr < 0xE000 then
                      (case getu4 (drop 4 r) of
                         None \<Rightarrow> push replacement (unquote (drop 4 r))
                       | Some rr1 \<Rightarrow>
                           if rr < 0xDC00 \<and> 0xDC00 \<le> rr1 \<and> rr1 < 0xE000
                           then push (encodeRune ((rr - 0xD800) * 1024 + (rr1 - 0xDC00) + 0x10000))
                                  (unquote (drop 10 r))
                           else push replacement (unquote (drop 4 r)))
                    else push (encodeRune rr) (unquote (drop 4 r)))
             else
               (case unescape e of
                  None \<Rightarrow> None
                | Some d \<Rightarrow> push [d] (unquote r)))
      else if byte c < 0x20 then None
      else if byte c < 0x80 then push [c] (unquote cs)
      else
        (let n = rune_len (c # cs) in
         if n = 0 then push replacement (unquote cs)
         else push (take n (c # cs)) (unquote (drop (n - 1) cs))))"
  by pat_completeness auto
termination
  by (relation "measure length") auto

paragraph \<open>Values and their parser\<close>

datatype json =
    JNull
  | JBool bool
  | JNumber string
  | JString string
  | JArray "json list"
  | JObject "(string \<times> json) list"

definition is_ws :: "char \<Rightarrow> bool" where
  "is_ws c = (c = CHR '' '' \<or> c = CHR 0x09 \<or> c = CHR 0x0D \<or> c = CHR 0x0A)"

fun skip_ws :: "string \<Rightarrow> string" where
  "skip_ws [] = []"
| "skip_ws (c # cs) = (if is_ws c then skip_ws cs else c # cs)"

definition is_digit :: "char \<Rightarrow> bool" where
  "is_digit c = (0x30 \<le> byte c \<and> byte c \<le> 0x39)"

fun digits :: "string \<Rightarrow> string" where
  "digits [] = []"
| "digits (c # cs) = (if is_digit c then digits cs else c # cs)"

definition scan_frac :: "string \<Rightarrow> string option" where
  "scan_frac cs =
     (case cs of
        [] \<Rightarrow> Some cs
      | c # r \<Rightarrow>
          if c = CHR ''.'' then
            (case r of [] \<Rightarrow> None | d # r' \<Rightarrow> if is_digit d then Some (digits r') else None)
          else Some cs)"

definition scan_exp :: "string \<Rightarrow> string option" where
  "scan_exp cs =
     (case cs of
        [] \<Rightarrow> Some cs
      | c # r \<Rightarrow>
          if c = CHR ''e'' \<or> c = CHR ''E'' then
            (case (case r of [] \<Rightarrow> r | s # r' \<Rightarrow> if s = CHR ''+'' \<or> s = CHR ''-'' then r' else r) of
               [] \<Rightarrow> None
             | d # r' \<Rightarrow> if is_digit d then Some (digits r') else None)
          else Some cs)"

definition scan_number :: "string \<Rightarrow> string option" where
  "scan_number cs =
     (case (case cs of [] \<Rightarrow> cs | c # r \<Rightarrow> if c = CHR ''-'' then r else cs) of
        [] \<Rightarrow> None
      | d # r \<Rightarrow>
          if \<not> is_digit d then None
          else
            (case scan_frac (if d = CHR ''0'' then r else digits r) of
               None \<Rightarrow> None
             | Some cs' \<Rightarrow> scan_exp cs'))"

fun parse_value :: "nat \<Rightarrow> string \<Rightarrow> (json \<times> string) option"
and parse_elems :: "nat \<Rightarrow> string \<Rightarrow> (json list \<times> string) option"
and parse_members :: "nat \<Rightarrow> string \<Rightarrow> ((string \<times> json) list \<times> string) option"
where
  "parse_value 0 cs = None"
| "parse_value (Suc n) cs =
     (case cs of
        [] \<Rightarrow> None
      | c # r \<Rightarrow>
          if c = dquote then
            (case unquote r of None \<Rightarrow> None | Some (s, r') \<Rightarrow> Some (JString s, r'))
          else if c = CHR ''['' then
            (case skip_ws r of
               [] \<Rightarrow> None
             | c' # r' \<Rightarrow>
                 if c' = CHR '']'' then Some (JArray [], r')
                 else
                   (case parse_elems n (c' # r') of
                      None \<Rightarrow> None
                    | Some (vs, r'') \<Rightarrow> Some (JArray vs, r'')))
          else if c = CHR ''{'' then
            (case skip_ws r of
               [] \<Rightarrow> None
             | c' # r' \<Rightarrow>
                 if c' = CHR ''}'' then Some (JObject [], r')
                 else
                   (case parse_members n (c' # r') of
                      None \<Rightarrow> None
                    | Some (ms, r'') \<Rightarrow> Some (JObject ms, r'')))
          else if take 4 cs = ''null'' then Some (JNull, drop 4 cs)
          else if take 4 cs = ''true'' then Some (JBool True, drop 4 cs)
          else if take 5 cs = ''false'' then Some (JBool False, drop 5 cs)
          else
            (case scan_number cs of
               None \<Rightarrow> None
             | Some r' \<Rightarrow> Some (JNumber (take (length cs - length r') cs), r')))"
| "parse_elems 0 cs = None"
| "parse_elems (Suc n) cs =
     (case parse_value n cs of
        None \<Rightarrow> None
      | Some (v, r) \<Rightarrow>
          (case skip_ws r of
             [] \<Rightarrow> None
           | c # r' \<Rightarrow>
               if c = CHR '']'' then Some ([v], r')
               else if c = CHR '','' then
                 (case parse_elems n (skip_ws r') of
                    None \<Rightarrow> None
                  | Some (vs, r'') \<Rightarrow> Some (v # vs, r''))
               else None))"
| "parse_members 0 cs = None"
| "parse_members (Suc n) cs =
     (case cs of
        [] \<Rightarrow> None
      | c # r \<Rightarrow>
          if c \<noteq> dquote then None
          else
            (case unquote r of
               None \<Rightarrow> None
             | Some (k, r1) \<Rightarrow>
                 (case skip_ws r1 of
                    [] \<Rightarrow> None
                  | c1 # r2 \<Rightarrow>
                      if c1 \<noteq> CHR '':'' then None
                      else
                        (case parse_value n (skip_ws r2) of
                           None \<Rightarrow> None
                         | Some (v, r3) \<Rightarrow>
                             (case skip_ws r3 of
                                [] \<Rightarrow> None
                              | c3 # r4 \<Rightarrow>
                                  if c3 = CHR ''}'' then Some ([(k, v)], r4)
                                  else if c3 = CHR '','' then
                                    (case parse_members n (skip_ws r4) of
                                       None \<Rightarrow> None
                                     | Some (ms, r5) \<Rightarrow> Some ((k, v) # ms, r5))
                                  else None)))))"

definition parse_json :: "string \<Rightarrow> json option" where
  "parse_json t =
     (case parse_value (Suc (length t)) (skip_ws t) of
        None \<Rightarrow> None
      | Some (v, r) \<Rightarrow> if skip_ws r = [] then Some v else None)"

paragraph \<open>Printing values\<close>

fun join_comma :: "string list \<Rightarrow> string" where
  "join_comma [] = []"
| "join_comma [x] = x"
| "join_comma (x # y # ys) = x @ CHR '','' # join_comma (y # ys)"

fun print_json :: "json \<Rightarrow> string" where
  "print_json JNull = ''null''"
| "print_json (JBool b) = (if b then ''true'' else ''false'')"
| "print_json (JNumber t) = t"
| "print_json (JString s) = enc_string s"
| "print_json (JArray vs) = CHR ''['' # join_comma (map print_json vs) @ '']''"
| "print_json (JObject ms) =
     CHR ''{'' # join_comma (map (\<lambda>m. enc_string (fst m) @ CHR '':'' # print_json (snd m)) ms) @ ''}''"

text \<open>What a printed value reads back as: its strings and keys coerced. \<open>textual\<close> values
  hold no number, and \<open>weight\<close> bounds the fuel their parse needs.\<close>

fun coerce_json :: "json \<Rightarrow> json" where
  "coerce_json JNull = JNull"
| "coerce_json (JBool b) = JBool b"
| "coerce_json (JNumber t) = JNumber t"
| "coerce_json (JString s) = JString (coerce_utf8 s)"
| "coerce_json (JArray vs) = JArray (map coerce_json vs)"
| "coerce_json (JObject ms) = JObject (map (\<lambda>m. (coerce_utf8 (fst m), coerce_json (snd m))) ms)"

fun textual :: "json \<Rightarrow> bool" where
  "textual (JNumber t) = False"
| "textual (JArray vs) = list_all textual vs"
| "textual (JObject ms) = list_all (\<lambda>m. textual (snd m)) ms"
| "textual v = True"

fun weight :: "json \<Rightarrow> nat" where
  "weight (JArray vs) = Suc (sum_list (map (\<lambda>v. Suc (weight v)) vs))"
| "weight (JObject ms) = Suc (sum_list (map (\<lambda>m. Suc (weight (snd m))) ms))"
| "weight v = Suc 0"

text \<open>One member of a printed object.\<close>

definition print_member :: "string \<times> json \<Rightarrow> string" where
  "print_member m = enc_string (fst m) @ CHR '':'' # print_json (snd m)"

paragraph \<open>Marshalling a secret and an index\<close>

text \<open>The entries of a map are written by key in byte order; of the entries of an
  association list the first for each key counts.\<close>

fun str_less :: "string \<Rightarrow> string \<Rightarrow> bool" where
  "str_less [] [] = False"
| "str_less [] (y # ys) = True"
| "str_less (x # xs) [] = False"
| "str_less (x # xs) (y # ys) = (byte x < byte y \<or> (x = y \<and> str_less xs ys))"

fun insert_entry :: "string \<times> string \<Rightarrow> (string \<times> string) list \<Rightarrow> (string \<times> string) list" where
  "insert_entry e [] = [e]"
| "insert_entry e (e' # es) =
     (if str_less (fst e') (fst e) then e' # insert_entry e es else e # e' # es)"

fun first_entries :: "(string \<times> string) list \<Rightarrow> (string \<times> string) list" where
  "first_entries [] = []"
| "first_entries (e # es) = e # filter (\<lambda>e'. fst e' \<noteq> fst e) (first_entries es)"

definition sorted_entries :: "(string \<times> string) list \<Rightarrow> (string \<times> string) list" where
  "sorted_entries m = foldr insert_entry (first_entries m) []"

definition json_of_map :: "(string \<times> string) list \<Rightarrow> json" where
  "json_of_map m = JObject (map (\<lambda>e. (fst e, JString (snd e))) (sorted_entries m))"

definition json_of_metadata :: "Metadata \<Rightarrow> json" where
  "json_of_metadata md =
     JObject
       ((if Tags md \<noteq> [] then [(''tags'', json_of_map (Tags md))] else []) @
        (if Provider md \<noteq> [] then [(''provider'', JString (Provider md))] else []) @
        (if Path md \<noteq> [] then [(''path'', JString (Path md))] else []))"

definition json_of_secret :: "Secret \<Rightarrow> json" where
  "json_of_secret s =
     JObject
       ((if Value s \<noteq> [] then [(''value'', JString (Value s))] else []) @
        (if Fields s \<noteq> [] then [(''fields'', json_of_map (Fields s))] else []) @
        [(''metadata'', json_of_metadata (Metadata s))])"

definition go_marshal_secret :: "Secret \<Rightarrow> jerr + string" where
  "go_marshal_secret s = Inr (print_json (json_of_secret s))"

definition go_marshal_index :: "string list \<Rightarrow> jerr + string" where
  "go_marshal_index index = Inr (print_json (JArray (map JString index)))"

paragraph \<open>Unmarshalling into a secret and into a list of strings\<close>

text \<open>A value of the wrong JSON type records \<^verbatim>\<open>UnmarshalTypeError\<close> (the first error is
  kept) and decoding goes on; \<^verbatim>\<open>null\<close> leaves a string as it is and makes a map nil.\<close>

definition saveError :: "jerr \<Rightarrow> jerr option \<Rightarrow> jerr option" where
  "saveError e err = (case err of None \<Rightarrow> Some e | Some e0 \<Rightarrow> Some e0)"

fun decode_string :: "json \<Rightarrow> string \<Rightarrow> jerr option \<Rightarrow> string \<times> jerr option" where
  "decode_string (JString s) cur err = (s, err)"
| "decode_string JNull cur err = (cur, err)"
| "decode_string v cur err = (cur, saveError UnmarshalTypeError err)"

fun map_store :: "string \<Rightarrow> string \<Rightarrow> (string \<times> string) list \<Rightarrow> (string \<times> string) list" where
  "map_store k v [] = [(k, v)]"
| "map_store k v (e # es) = (if fst e = k then (k, v) # es else e # map_store k v es)"

fun decode_entries ::
  "(string \<times> json) list \<Rightarrow> (string \<times> string) list \<Rightarrow> jerr option
     \<Rightarrow> (string \<times> string) list \<times> jerr option" where
  "decode_entries [] m err = (m, err)"
| "decode_entries (e # ms) m err =
     (case decode_string (snd e) [] err of
        (s, err') \<Rightarrow> decode_entries ms (map_store (fst e) s m) err')"

fun decode_map ::
  "json \<Rightarrow> (string \<times> string) list \<Rightarrow> jerr option \<Rightarrow> (string \<times> string) list \<times> jerr option" where
  "decode_map (JObject ms) m err = decode_entries ms m err"
| "decode_map JNull m err = ([], err)"
| "decode_map v m err = (m, saveError UnmarshalTypeError err)"

definition fold_char :: "char \<Rightarrow> char" where
  "fold_char c = (if 0x61 \<le> byte c \<and> byte c \<le> 0x7A then char_of (byte c - 0x20) else c)"

text \<open>\<^verbatim>\<open>foldName\<close> puts ASCII letters in upper case and replaces the two runes outside
  ASCII whose simple case folding reaches an ASCII letter: U+017F by \<^verbatim>\<open>S\<close> and U+212A by
  \<^verbatim>\<open>K\<close>. The other bytes are kept: the rune they belong to folds to a rune outside
  ASCII, and the field names a key is compared with are ASCII.\<close>

function foldName :: "string \<Rightarrow> string" where
  "foldName [] = []"
| "foldName (c # cs) =
     (if byte c < 0x80 then fold_char c # foldName cs
      else if take 2 (c # cs) = [CHR 0xC5, CHR 0xBF] then CHR ''S'' # foldName (drop 1 cs)
      else if take 3 (c # cs) = [CHR 0xE2, CHR 0x84, CHR 0xAA] then CHR ''K'' # foldName (drop 2 cs)
      else c # foldName cs)"
  by pat_completeness auto
termination
  by (relation "measure length") auto

definition names :: "string \<Rightarrow> string \<Rightarrow> bool" where
  "names key field = (foldName key = foldName field)"

fun decode_metadata_members ::
  "(string \<times> json) list \<Rightarrow> Metadata \<Rightarrow> jerr option \<Rightarrow> Metadata \<times> jerr option" where
  "decode_metadata_members [] md err = (md, err)"
| "decode_metadata_members (e # ms) md err =
     (if names (fst e) ''provider'' then
        (case decode_string (snd e) (Provider md) err of
           (s, err') \<Rightarrow> decode_metadata_members ms (md\<lparr>Provider := s\<rparr>) err')
      else if names (fst e) ''path'' then
        (case decode_string (snd e) (Path md) err of
           (s, err') \<Rightarrow> decode_metadata_members ms (md\<lparr>Path := s\<rparr>) err')
      else if names (fst e) ''tags'' then
        (case decode_map (snd e) (Tags md) err of
           (m, err') \<Rightarrow> decode_metadata_members ms (md\<lparr>Tags := m\<rparr>) err')
      else decode_metadata_members ms md err)"

fun decode_metadata :: "json \<Rightarrow> Metadata \<Rightarrow> jerr option \<Rightarrow> Metadata \<times> jerr option" where
  "decode_metadata (JObject ms) md err = decode_metadata_members ms md err"
| "decode_metadata JNull md err = (md, err)"
| "decode_metadata v md err = (md, saveError UnmarshalTypeError err)"

fun decode_secret_members ::
  "(string \<times> json) list \<Rightarrow> Secret \<Rightarrow> jerr option \<Rightarrow> Secret \<times> jerr option" where
  "decode_secret_members [] secret err = (secret, err)"
| "decode_secret_members (e # ms) secret err =
     (if names (fst e) ''value'' then
        (case decode_string (snd e) (Value secret) err of
           (s, err') \<Rightarrow> decode_secret_members ms (secret\<lparr>Value := s\<rparr>) err')
      else if names (fst e) ''fields'' then
        (case decode_map (snd e) (Fields secret) err of
           (m, err') \<Rightarrow> decode_secret_members ms (secret\<lparr>Fields := m\<rparr>) err')
      else if names (fst e) ''metadata'' then
        (case decode_metadata (snd e) (Metadata secret) err of
           (md, err') \<Rightarrow> decode_secret_members ms (secret\<lparr>Metadata := md\<rparr>) err')
      else decode_secret_members ms secret err)"

definition go_unmarshal_secret :: "string \<Rightarrow> Secret \<Rightarrow> jerr option \<times> Secret" where
  "go_unmarshal_secret t secret =
     (case parse_json t of
        None \<Rightarrow> (Some SyntaxError, secret)
      | Some JNull \<Rightarrow> (None, secret)
      | Some (JObject ms) \<Rightarrow>
          (case decode_secret_members ms secret None of (secret', err) \<Rightarrow> (err, secret'))
      | Some v \<Rightarrow> (Some UnmarshalTypeError, secret))"

fun decode_strings :: "json list \<Rightarrow> jerr option \<Rightarrow> string list \<times> jerr option" where
  "decode_strings [] err = ([], err)"
| "decode_strings (v # vs) err =
     (case decode_string v [] err of
        (s, err') \<Rightarrow> (case decode_strings vs err' of (xs, err'') \<Rightarrow> (s # xs, err'')))"

definition go_unmarshal_index :: "string \<Rightarrow> jerr + string list" where
  "go_unmarshal_index t =
     (case parse_json t of
        None \<Rightarrow> Inl SyntaxError
      | Some JNull \<Rightarrow> Inr []
      | Some (JArray vs) \<Rightarrow>
          (case decode_strings vs None of (xs, None) \<Rightarrow> Inr xs | (xs, Some e) \<Rightarrow> Inl e)
      | Some v \<Rightarrow> Inl UnmarshalTypeError)"

definition go_json :: codec where
  "go_json =
     \<lparr>marshal_secret = go_marshal_secret, unmarshal_secret = go_unmarshal_secret,
      marshal_index = go_marshal_index, unmarshal_index = go_unmarshal_index\<rparr>"

paragraph \<open>What a marshalled secret decodes to\<close>

text \<open>\<open>store_all\<close> is the map after the (coerced) entries were stored one by one,
  \<open>decoded_metadata md md0\<close> the metadata \<open>md0\<close> after decoding what was marshalled from
  \<open>md\<close>. A \<open>text_secret\<close> has valid UTF-8 as primary value, field names and field values.
  \<open>json_object_or_null\<close> texts are those the decoder takes for a secret.\<close>

definition store_all :: "(string \<times> string) list \<Rightarrow> (string \<times> string) list \<Rightarrow> (string \<times> string) list" where
  "store_all m0 es =
     foldl (\<lambda>acc e. map_store (coerce_utf8 (fst e)) (coerce_utf8 (snd e)) acc) m0 es"

definition decoded_metadata :: "Metadata \<Rightarrow> Metadata \<Rightarrow> Metadata" where
  "decoded_metadata md md0 =
     md0\<lparr>Provider := (if Provider md \<noteq> [] then coerce_utf8 (Provider md) else Provider md0),
          Path := (if Path md \<noteq> [] then coerce_utf8 (Path md) else Path md0),
          Tags := (if Tags md \<noteq> [] then store_all (Tags md0) (sorted_entries (Tags md))
                   else Tags md0)\<rparr>"

definition text_secret :: "Secret \<Rightarrow> bool" where
  "text_secret s =
     (utf8_valid (Value s) \<and> (\<forall>e \<in> set (Fields s). utf8_valid (fst e) \<and> utf8_valid (snd e)))"

definition json_object_or_null :: "string \<Rightarrow> bool" where
  "json_object_or_null t =
     (case parse_json t of Some JNull \<Rightarrow> True | Some (JObject ms) \<Rightarrow> True | _ \<Rightarrow> False)"

subsection \<open>The credential store\<close>

text \<open>
  The store is one flat namespace keyed by service and key. Every call is logged in
  \<open>accesses\<close> and consumes the head of \<open>faults\<close>: \<open>Some e\<close> makes the call fail with
  \<open>e\<close> and leave the entries alone, \<open>None\<close> (or an exhausted script) lets it behave
  normally. \<open>reported\<close> logs the calls made to the \<^verbatim>\<open>OnIndexError\<close> callback.
\<close>

datatype access = KGet string string | KSet string string string | KDelete string string

record world =
  entries :: "string \<times> string \<Rightarrow> string option"
  faults :: "kerr option list"
  accesses :: "access list"
  reported :: "(string \<times> err) list"

definition called :: "access \<Rightarrow> world \<Rightarrow> world" where
  "called a w = w\<lparr>faults := tl (faults w), accesses := accesses w @ [a]\<rparr>"

definition fault :: "world \<Rightarrow> kerr option" where
  "fault w = (case faults w of [] \<Rightarrow> None | f # _ \<Rightarrow> f)"

definition keyring_Get :: "string \<Rightarrow> string \<Rightarrow> world \<Rightarrow> (kerr + string) \<times> world" where
  "keyring_Get service key w =
     (case fault w of
        Some e \<Rightarrow> (Inl e, called (KGet service key) w)
      | None \<Rightarrow>
          (case entries w (service, key) of
             None \<Rightarrow> (Inl ErrNotFound, called (KGet service key) w)
           | Some v \<Rightarrow> (Inr v, called (KGet service key) w)))"

definition keyring_Set :: "string \<Rightarrow> string \<Rightarrow> string \<Rightarrow> world \<Rightarrow> kerr option \<times> world" where
  "keyring_Set service key v w =
     (case fault w of
        Some e \<Rightarrow> (Some e, called (KSet service key v) w)
      | None \<Rightarrow>
          (None, called (KSet service key v) (w\<lparr>entries := (entries w)((service, key) \<mapsto> v)\<rparr>)))"

definition keyring_Delete :: "string \<Rightarrow> string \<Rightarrow> world \<Rightarrow> kerr option \<times> world" where
  "keyring_Delete service key w =
     (case fault w of
        Some e \<Rightarrow> (Some e, called (KDelete service key) w)
      | None \<Rightarrow>
          (case entries w (service, key) of
             None \<Rightarrow> (Some ErrNotFound, called (KDelete service key) w)
           | Some v \<Rightarrow>
               (None, called (KDelete service key)
                        (w\<lparr>entries := (entries w)((service, key) := None)\<rparr>))))"

subsection \<open>Configuration and provider\<close>

definition DefaultServiceName :: string where
  "DefaultServiceName = ''omnivault''"

definition indexKey :: string where
  "indexKey = ''__omnivault_index__''"

text \<open>\<open>OnIndexError\<close> holds iff the callback is not nil.\<close>

record Config =
  ServiceName :: string
  JSONFormat :: bool
  OnIndexError :: bool

record Provider =
  config :: Config
  closed :: bool

definition New :: "Config \<Rightarrow> Provider" where
  "New c =
     \<lparr>config = (if ServiceName c = [] then c\<lparr>ServiceName := DefaultServiceName\<rparr> else c),
      closed = False\<rparr>"

definition Provider_Name :: string where
  "Provider_Name = ''keyring''"

subsection \<open>The index\<close>

definition reportIndexError :: "Config \<Rightarrow> string \<Rightarrow> err \<Rightarrow> world \<Rightarrow> world" where
  "reportIndexError c op e w =
     (if OnIndexError c then w\<lparr>reported := reported w @ [(op, e)]\<rparr> else w)"

definition loadIndex :: "codec \<Rightarrow> Config \<Rightarrow> world \<Rightarrow> string list \<times> world" where
  "loadIndex J c w =
     (case keyring_Get (ServiceName c) indexKey w of
        (Inl e, w1) \<Rightarrow>
          ([], if e \<noteq> ErrNotFound then reportIndexError c ''load'' (Keyring e) w1 else w1)
      | (Inr v, w1) \<Rightarrow>
          (case unmarshal_index J v of
             Inl je \<Rightarrow> ([], reportIndexError c ''unmarshal'' (Json je) w1)
           | Inr index \<Rightarrow> (index, w1)))"

definition saveIndex :: "codec \<Rightarrow> Config \<Rightarrow> string list \<Rightarrow> world \<Rightarrow> world" where
  "saveIndex J c index w =
     (case marshal_index J index of
        Inl je \<Rightarrow> reportIndexError c ''marshal'' (Json je) w
      | Inr data \<Rightarrow>
          (case keyring_Set (ServiceName c) indexKey data w of
             (Some e, w1) \<Rightarrow> reportIndexError c ''save'' (Keyring e) w1
           | (None, w1) \<Rightarrow> w1))"

text \<open>The loop of \<^verbatim>\<open>addToIndex\<close>: is some \<^verbatim>\<open>k == key\<close>?\<close>

fun already_in_index :: "string \<Rightarrow> string list \<Rightarrow> bool" where
  "already_in_index key [] = False"
| "already_in_index key (k # ks) = (if k = key then True else already_in_index key ks)"

definition addToIndex :: "codec \<Rightarrow> Config \<Rightarrow> string \<Rightarrow> world \<Rightarrow> world" where
  "addToIndex J c key w =
     (case loadIndex J c w of
        (index, w1) \<Rightarrow>
          if already_in_index key index then w1 else saveIndex J c (index @ [key]) w1)"

text \<open>The loop of \<^verbatim>\<open>removeFromIndex\<close>, appending to \<^verbatim>\<open>newIndex\<close>.\<close>

fun keep_others :: "string \<Rightarrow> string list \<Rightarrow> string list \<Rightarrow> string list" where
  "keep_others key [] newIndex = newIndex"
| "keep_others key (k # ks) newIndex =
     keep_others key ks (if k \<noteq> key then newIndex @ [k] else newIndex)"

definition removeFromIndex :: "codec \<Rightarrow> Config \<Rightarrow> string \<Rightarrow> world \<Rightarrow> world" where
  "removeFromIndex J c key w =
     (case loadIndex J c w of
        (index, w1) \<Rightarrow> saveIndex J c (keep_others key index []) w1)"

subsection \<open>The operations of the provider\<close>

definition encode_secret :: "codec \<Rightarrow> Config \<Rightarrow> Secret \<Rightarrow> err + string" where
  "encode_secret J c secret =
     (if JSONFormat c then
        (case marshal_secret J secret of Inl je \<Rightarrow> Inl (Json je) | Inr data \<Rightarrow> Inr data)
      else Inr (Secret_String secret))"

definition Provider_Get ::
  "codec \<Rightarrow> Provider \<Rightarrow> string \<Rightarrow> world \<Rightarrow> (VaultError + Secret) \<times> world" where
  "Provider_Get J p path w =
     (if closed p then (Inl (NewVaultError ''Get'' path Provider_Name ErrClosed), w)
      else
        (case keyring_Get (ServiceName (config p)) path w of
           (Inl e, w1) \<Rightarrow>
             if e = ErrNotFound
             then (Inl (NewVaultError ''Get'' path Provider_Name ErrSecretNotFound), w1)
             else (Inl (NewVaultError ''Get'' path Provider_Name (Keyring e)), w1)
         | (Inr v, w1) \<Rightarrow>
             let secret = \<lparr>Value = [], Fields = [],
                           Metadata = \<lparr>Provider = Provider_Name, Path = path, Tags = []\<rparr>\<rparr>
             in if JSONFormat (config p) then
                  (case unmarshal_secret J v secret of
                     (Some je, secret') \<Rightarrow> (Inr (secret'\<lparr>Value := v\<rparr>), w1)
                   | (None, secret') \<Rightarrow> (Inr secret', w1))
                else (Inr (secret\<lparr>Value := v\<rparr>), w1)))"

definition Provider_Set ::
  "codec \<Rightarrow> Provider \<Rightarrow> string \<Rightarrow> Secret \<Rightarrow> world \<Rightarrow> VaultError option \<times> world" where
  "Provider_Set J p path secret w =
     (if closed p then (Some (NewVaultError ''Set'' path Provider_Name ErrClosed), w)
      else
        (case encode_secret J (config p) secret of
           Inl e \<Rightarrow> (Some (NewVaultError ''Set'' path Provider_Name e), w)
         | Inr v \<Rightarrow>
             (case keyring_Set (ServiceName (config p)) path v w of
                (Some e, w1) \<Rightarrow> (Some (NewVaultError ''Set'' path Provider_Name (Keyring e)), w1)
              | (None, w1) \<Rightarrow>
                  (None, if path \<noteq> indexKey then addToIndex J (config p) path w1 else w1))))"

definition Provider_Delete ::
  "codec \<Rightarrow> Provider \<Rightarrow> string \<Rightarrow> world \<Rightarrow> VaultError option \<times> world" where
  "Provider_Delete J p path w =
     (if closed p then (Some (NewVaultError ''Delete'' path Provider_Name ErrClosed), w)
      else
        (case keyring_Delete (ServiceName (config p)) path w of
           (Some e, w1) \<Rightarrow>
             if e = ErrNotFound then (None, w1)
             else (Some (NewVaultError ''Delete'' path Provider_Name (Keyring e)), w1)
         | (None, w1) \<Rightarrow>
             (None, if path \<noteq> indexKey then removeFromIndex J (config p) path w1 else w1)))"

definition Provider_Exists ::
  "Provider \<Rightarrow> string \<Rightarrow> world \<Rightarrow> (VaultError + bool) \<times> world" where
  "Provider_Exists p path w =
     (if closed p then (Inl (NewVaultError ''Exists'' path Provider_Name ErrClosed), w)
      else
        (case keyring_Get (ServiceName (config p)) path w of
           (Inl e, w1) \<Rightarrow>
             if e = ErrNotFound then (Inr False, w1)
             else (Inl (NewVaultError ''Exists'' path Provider_Name (Keyring e)), w1)
         | (Inr v, w1) \<Rightarrow> (Inr True, w1)))"

text \<open>The loop of \<^verbatim>\<open>List\<close>, appending to \<^verbatim>\<open>results\<close>.\<close>

fun collect_prefixed :: "string \<Rightarrow> string list \<Rightarrow> string list \<Rightarrow> string list" where
  "collect_prefixed pre [] results = results"
| "collect_prefixed pre (key # ks) results =
     collect_prefixed pre ks (if HasPrefix key pre then results @ [key] else results)"

definition Provider_List ::
  "codec \<Rightarrow> Provider \<Rightarrow> string \<Rightarrow> world \<Rightarrow> (VaultError + string list) \<times> world" where
  "Provider_List J p pre w =
     (if closed p then (Inl (NewVaultError ''List'' pre Provider_Name ErrClosed), w)
      else
        (case loadIndex J (config p) w of
           (index, w1) \<Rightarrow> (Inr (collect_prefixed pre index []), w1)))"

definition Provider_Close :: "Provider \<Rightarrow> VaultError option \<times> Provider" where
  "Provider_Close p = (None, p\<lparr>closed := True\<rparr>)"

text \<open>The secret \<^verbatim>\<open>Get\<close> starts from.\<close>

definition stamped :: "string \<Rightarrow> Secret" where
  "stamped path =
     \<lparr>Value = [], Fields = [], Metadata = \<lparr>Provider = ''keyring'', Path = path, Tags = []\<rparr>\<rparr>"

subsection \<open>Sequences of calls\<close>

datatype call =
    CallGet string
  | CallSet string Secret
  | CallDelete string
  | CallExists string
  | CallList string
  | CallClose

datatype reply =
    GotSecret "VaultError + Secret"
  | Done "VaultError option"
  | Found "VaultError + bool"
  | Listed "VaultError + string list"

fun step :: "codec \<Rightarrow> call \<Rightarrow> Provider \<times> world \<Rightarrow> reply \<times> Provider \<times> world" where
  "step J (CallGet path) (p, w) = (case Provider_Get J p path w of (r, w') \<Rightarrow> (GotSecret r, p, w'))"
| "step J (CallSet path s) (p, w) = (case Provider_Set J p path s w of (r, w') \<Rightarrow> (Done r, p, w'))"
| "step J (CallDelete path) (p, w) = (case Provider_Delete J p path w of (r, w') \<Rightarrow> (Done r, p, w'))"
| "step J (CallExists path) (p, w) = (case Provider_Exists p path w of (r, w') \<Rightarrow> (Found r, p, w'))"
| "step J (CallList pre) (p, w) = (case Provider_List J p pre w of (r, w') \<Rightarrow> (Listed r, p, w'))"
| "step J CallClose (p, w) = (case Provider_Close p of (r, p') \<Rightarrow> (Done r, p', w))"

fun run :: "codec \<Rightarrow> call list \<Rightarrow> Provider \<times> world \<Rightarrow> Provider \<times> world" where
  "run J [] s = s"
| "run J (c # cs) s = run J cs (snd (step J c s))"

text \<open>The replies a sequence of calls gets. The stored index is clean when what it decodes
  to (if it is there and decodes) does not hold the reserved key; a call poisons the index
  when it is a \<^verbatim>\<open>Set\<close> on the reserved key of a secret whose stored text decodes to an
  index that holds the reserved key, and a run is poisoned when such a call of it was
  answered with success.\<close>

fun replies :: "codec \<Rightarrow> call list \<Rightarrow> Provider \<times> world \<Rightarrow> reply list" where
  "replies J [] s = []"
| "replies J (c # cs) s = fst (step J c s) # replies J cs (snd (step J c s))"

definition index_clean :: "codec \<Rightarrow> string \<Rightarrow> world \<Rightarrow> bool" where
  "index_clean J service w =
     (case entries w (service, indexKey) of
        None \<Rightarrow> True
      | Some t \<Rightarrow>
          (case unmarshal_index J t of Inl e \<Rightarrow> True | Inr index \<Rightarrow> indexKey \<notin> set index))"

text \<open>The index the store holds: what \<^verbatim>\<open>loadIndex\<close> returns when the store answers.\<close>

definition stored_index :: "codec \<Rightarrow> Config \<Rightarrow> world \<Rightarrow> string list" where
  "stored_index J c w =
     (case entries w (ServiceName c, indexKey) of
        None \<Rightarrow> []
      | Some t \<Rightarrow> (case unmarshal_index J t of Inl je \<Rightarrow> [] | Inr index \<Rightarrow> index))"

definition poisons :: "codec \<Rightarrow> Config \<Rightarrow> call \<Rightarrow> bool" where
  "poisons J c call =
     (case call of
        CallSet path secret \<Rightarrow>
          path = indexKey \<and>
          (case encode_secret J c secret of
             Inl e \<Rightarrow> False
           | Inr v \<Rightarrow>
               (case unmarshal_index J v of Inl je \<Rightarrow> False | Inr index \<Rightarrow> indexKey \<in> set index))
      | _ \<Rightarrow> False)"

fun poisoned :: "codec \<Rightarrow> call list \<Rightarrow> Provider \<times> world \<Rightarrow> bool" where
  "poisoned J [] s = False"
| "poisoned J (c # cs) s =
     ((poisons J (config (fst s)) c \<and> fst (step J c s) = Done None) \<or>
      poisoned J cs (snd (step J c s)))"

subsection \<open>Failures of an index cycle\<close>

text \<open>
  What the specification wants reported: a read of the index entry that fails for another
  reason than absence is a \<^verbatim>\<open>load\<close> failure, a text that does not decode an
  \<^verbatim>\<open>unmarshal\<close> failure, an index that does not encode a \<^verbatim>\<open>marshal\<close> failure and a
  refused write a \<^verbatim>\<open>save\<close> failure. Both functions take the answer of the store.
\<close>

definition load_failure :: "codec \<Rightarrow> kerr + string \<Rightarrow> (string \<times> err) list" where
  "load_failure J answer =
     (case answer of
        Inl e \<Rightarrow> if e = ErrNotFound then [] else [(''load'', Keyring e)]
      | Inr t \<Rightarrow>
          (case unmarshal_index J t of Inl je \<Rightarrow> [(''unmarshal'', Json je)] | Inr index \<Rightarrow> []))"

definition save_failure :: "codec \<Rightarrow> string list \<Rightarrow> kerr option \<Rightarrow> (string \<times> err) list" where
  "save_failure J index answer =
     (case marshal_index J index of
        Inl je \<Rightarrow> [(''marshal'', Json je)]
      | Inr data \<Rightarrow> (case answer of Some e \<Rightarrow> [(''save'', Keyring e)] | None \<Rightarrow> []))"

subsection \<open>Sample states\<close>

definition fresh_world :: world where
  "fresh_world = \<lparr>entries = Map.empty, faults = [], accesses = [], reported = []\<rparr>"

definition plain_provider :: Provider where
  "plain_provider = New \<lparr>ServiceName = ''myapp'', JSONFormat = False, OnIndexError = True\<rparr>"

definition json_provider :: Provider where
  "json_provider = New \<lparr>ServiceName = ''myapp'', JSONFormat = True, OnIndexError = True\<rparr>"

definition index_text :: string where
  "index_text = ''[\"database/prod\",\"database/staging\",\"api/github\"]''"

definition listed_world :: world where
  "listed_world = fresh_world\<lparr>entries := [(''myapp'', indexKey) \<mapsto> index_text]\<rparr>"

definition corrupt_world :: world where
  "corrupt_world =
     fresh_world\<lparr>entries := [(''myapp'', indexKey) \<mapsto> ''not json'', (''myapp'', ''k'') \<mapsto> ''old''],
       faults := [None, None, Some (ErrBackend ''locked'')]\<rparr>"

definition locked_index_world :: world where
  "locked_index_world =
     fresh_world\<lparr>entries := [(''myapp'', ''k'') \<mapsto> ''old''],
       faults := [None, Some (ErrBackend ''locked'')]\<rparr>"

definition db_creds :: Secret where
  "db_creds =
     \<lparr>Value = ''password123'',
      Fields = [(''username'', ''admin''), (''host'', ''localhost''), (''port'', ''5432'')],
      Metadata = \<lparr>Provider = [], Path = [], Tags = []\<rparr>\<rparr>"

definition binary_secret :: Secret where
  "binary_secret =
     \<lparr>Value = [CHR 0xFF], Fields = [], Metadata = \<lparr>Provider = [], Path = [], Tags = []\<rparr>\<rparr>"

definition json_text_secret :: Secret where
  "json_text_secret =
     \<lparr>Value = ''{}'', Fields = [], Metadata = \<lparr>Provider = [], Path = [], Tags = []\<rparr>\<rparr>"

definition number_text_secret :: Secret where
  "number_text_secret =
     \<lparr>Value = ''{\"value\":5}'', Fields = [], Metadata = \<lparr>Provider = [], Path = [], Tags = []\<rparr>\<rparr>"

definition plain_text_secret :: Secret where
  "plain_text_secret =
     \<lparr>Value = ''hunter2'', Fields = [], Metadata = \<lparr>Provider = [], Path = [], Tags = []\<rparr>\<rparr>"

definition foreign_secret :: Secret where
  "foreign_secret =
     \<lparr>Value = ''v'', Fields = [], Metadata = \<lparr>Provider = ''env'', Path = ''HOME'', Tags = []\<rparr>\<rparr>"

definition reserved_text :: string where
  "reserved_text = ''[\"__omnivault_index__\"]''"

definition reserved_secret :: Secret where
  "reserved_secret =
     \<lparr>Value = reserved_text, Fields = [], Metadata = \<lparr>Provider = [], Path = [], Tags = []\<rparr>\<rparr>"

definition late_calls :: "call list" where
  "late_calls = [CallClose, CallSet indexKey reserved_secret, CallList []]"

definition sample_calls :: "call list" where
  "sample_calls =
     [CallSet ''a'' plain_text_secret, CallSet ''b'' plain_text_secret, CallDelete ''a'',
      CallSet indexKey plain_text_secret, CallList [], CallDelete indexKey,
      CallSet ''c'' plain_text_secret, CallList []]"

section \<open>Properties\<close>

subsection \<open>Strings survive the encoder up to coercion\<close>

lemma encodeRune_fffd: "encodeRune 0xFFFD = replacement"
  by (simp add: encodeRune_def replacement_def char_of_def bit_Suc_0_iff)

lemma encodeRune_2028: "encodeRune 0x2028 = [CHR 0xE2, CHR 0x80, CHR 0xA8]"
  by (simp add: encodeRune_def char_of_def bit_Suc_0_iff)

lemma encodeRune_2029: "encodeRune 0x2029 = [CHR 0xE2, CHR 0x80, CHR 0xA9]"
  by (simp add: encodeRune_def char_of_def bit_Suc_0_iff)

lemma rune_len_bound: "rune_len s \<le> length s"
  by (auto simp: rune_len_def Let_def split: list.splits)

lemma rune_len_prefix_aux:
  "rune_len s = n \<Longrightarrow> 0 < n \<Longrightarrow> rune_len (take n s @ ys) = n"
  by (cases s; cases "tl s"; cases "tl (tl s)"; cases "tl (tl (tl s))")
    (auto simp: rune_len_def Let_def split: if_splits)

lemma high_byte_plain:
  assumes "\<not> byte c < 0x80"
  shows "c \<noteq> dquote" "c \<noteq> backslash" "\<not> byte c < 0x20"
  using assms by (auto simp: dquote_def backslash_def byte_def)

lemma unquote_rune:
  assumes hi: "\<not> byte c < 0x80" and n: "rune_len (c # cs) = n" and pos: "0 < n"
  shows "unquote (take n (c # cs) @ Y) = push (take n (c # cs)) (unquote Y)"
proof -
  from pos obtain k where k: "n = Suc k"
    by (cases n) auto
  have len: "k \<le> length cs"
    using rune_len_bound [of "c # cs"] n k by simp
  have r: "rune_len (c # take k cs @ Y) = Suc k"
    using rune_len_prefix_aux [OF n pos, of Y] k by simp
  have "unquote (c # take k cs @ Y) = push (c # take k cs) (unquote Y)"
    by (subst unquote.simps) (simp add: high_byte_plain [OF hi] hi r len)
  then show "unquote (take n (c # cs) @ Y) = push (take n (c # cs)) (unquote Y)"
    by (simp add: k)
qed

lemma hex_hexval: "n < 16 \<Longrightarrow> hexval (hex n) = Some n"
proof -
  let ?digits = "[0, 1, 2, 3, 4, 5, 6, 7, 8, 9, 10, 11, 12, 13, 14, 15] :: nat list"
  assume "n < 16"
  then have "n \<in> set ?digits"
    by simp presburger
  moreover have "list_all (\<lambda>k. hexval (hex k) = Some k) ?digits"
    by (simp add: hex_def hexval_def byte_def)
  ultimately show ?thesis
    unfolding list_all_iff by blast
qed

lemma byte_less: "byte c < 256"
  by (simp add: byte_def)

lemma unquote_escape_ascii:
  assumes "byte c < 0x80" and "\<not> htmlSafe c"
  shows "unquote (escape_ascii c @ X) = push [c] (unquote X)"
proof (cases "c = backslash \<or> c = dquote \<or> c = CHR 0x08 \<or> c = CHR 0x0C \<or> c = CHR 0x0A
      \<or> c = CHR 0x0D \<or> c = CHR 0x09")
  case True
  then show ?thesis
    by (elim disjE) (simp_all add: escape_ascii_def unescape_def backslash_def dquote_def)
next
  case False
  have h: "hexval (hex (byte c div 16)) = Some (byte c div 16)"
    "hexval (hex (byte c mod 16)) = Some (byte c mod 16)"
    using byte_less [of c] by (auto intro!: hex_hexval)
  have zero: "hexval (CHR ''0'') = Some 0"
    by (simp add: hexval_def byte_def)
  from False have esc: "escape_ascii c =
      [backslash, CHR ''u'', CHR ''0'', CHR ''0'', hex (byte c div 16), hex (byte c mod 16)]"
    by (simp add: escape_ascii_def)
  have g: "getu4 (backslash # CHR ''u'' # CHR ''0'' # CHR ''0'' # hex (byte c div 16) #
      hex (byte c mod 16) # X) = Some (byte c)"
    by (simp add: getu4_def h zero)
  have enc: "encodeRune (byte c) = [c]"
    using assms(1) by (simp add: encodeRune_def byte_def)
  have ns: "\<not> 0xD800 \<le> byte c"
    using assms(1) by simp
  have "unquote (backslash # CHR ''u'' # CHR ''0'' # CHR ''0'' # hex (byte c div 16) #
      hex (byte c mod 16) # X) = push [c] (unquote X)"
    apply (subst unquote.simps)
    apply (simp only: g option.case list.case)
    using ns enc apply (simp add: backslash_def dquote_def)
    done
  then show ?thesis
    by (simp add: esc)
qed

lemma unquote_u_fffd: "unquote (backslash # ''ufffd'' @ X) = push replacement (unquote X)"
proof -
  have g: "getu4 (backslash # ''ufffd'' @ X) = Some 0xFFFD"
    by (simp add: getu4_def hexval_def byte_def)
  show ?thesis
    apply (subst unquote.simps)
    using g encodeRune_fffd apply (simp add: backslash_def dquote_def)
    done
qed

lemma unquote_u_2028:
  "unquote (backslash # ''u2028'' @ X) = push [CHR 0xE2, CHR 0x80, CHR 0xA8] (unquote X)"
proof -
  have g: "getu4 (backslash # ''u2028'' @ X) = Some 0x2028"
    by (simp add: getu4_def hexval_def byte_def)
  show ?thesis
    apply (subst unquote.simps)
    using g encodeRune_2028 apply (simp add: backslash_def dquote_def)
    done
qed

lemma unquote_u_2029:
  "unquote (backslash # ''u2029'' @ X) = push [CHR 0xE2, CHR 0x80, CHR 0xA9] (unquote X)"
proof -
  have g: "getu4 (backslash # ''u2029'' @ X) = Some 0x2029"
    by (simp add: getu4_def hexval_def byte_def)
  show ?thesis
    apply (subst unquote.simps)
    using g encodeRune_2029 apply (simp add: backslash_def dquote_def)
    done
qed

lemma unquote_safe:
  assumes "htmlSafe c"
  shows "unquote (c # X) = push [c] (unquote X)"
  using assms by (subst unquote.simps) (simp add: htmlSafe_def)

lemma unquote_appendString:
  "unquote (appendString s @ dquote # rest) = Some (coerce_utf8 s, rest)"
proof (induction s rule: appendString.induct)
  case 1
  show ?case by simp
next
  case (2 c cs)
  show ?case
  proof (cases "byte c < 0x80")
    case True
    with 2 have IH: "unquote (appendString cs @ dquote # rest) = Some (coerce_utf8 cs, rest)"
      by simp
    show ?thesis
    proof (cases "htmlSafe c")
      case safe: True
      show ?thesis
        using True safe IH unquote_safe [OF safe, of "appendString cs @ dquote # rest"]
        by (simp add: push_def del: unquote.simps)
    next
      case unsafe: False
      show ?thesis
        using True unsafe IH
          unquote_escape_ascii [OF True unsafe, of "appendString cs @ dquote # rest"]
        by (simp add: push_def del: unquote.simps)
    qed
  next
    case False
    define n where "n = rune_len (c # cs)"
    show ?thesis
    proof (cases "n = 0")
      case True
      with 2 False n_def
      have IH: "unquote (appendString cs @ dquote # rest) = Some (coerce_utf8 cs, rest)"
        by simp
      have "unquote ((backslash # ''ufffd'' @ appendString cs) @ dquote # rest) =
          Some (replacement @ coerce_utf8 cs, rest)"
        using unquote_u_fffd [of "appendString cs @ dquote # rest"] IH by (simp add: push_def del: unquote.simps)
      then show ?thesis
        using False True n_def by (simp del: unquote.simps)
    next
      case pos: False
      with 2 False n_def
      have IH: "unquote (appendString (drop (n - 1) cs) @ dquote # rest) =
          Some (coerce_utf8 (drop (n - 1) cs), rest)"
        by (auto simp del: unquote.simps appendString.simps coerce_utf8.simps)
      have co: "coerce_utf8 (c # cs) = take n (c # cs) @ coerce_utf8 (drop (n - 1) cs)"
        using False pos n_def by (simp add: Let_def)
      have rune: "unquote (take n (c # cs) @ appendString (drop (n - 1) cs) @ dquote # rest) =
          Some (take n (c # cs) @ coerce_utf8 (drop (n - 1) cs), rest)"
        using unquote_rune [OF False, of cs n] pos n_def IH by (simp add: push_def del: unquote.simps)
      show ?thesis
      proof (cases "take n (c # cs) = [CHR 0xE2, CHR 0x80, CHR 0xA8]")
        case True
        have "unquote ((backslash # ''u2028'' @ appendString (drop (n - 1) cs)) @ dquote # rest) =
            Some (take n (c # cs) @ coerce_utf8 (drop (n - 1) cs), rest)"
          using unquote_u_2028 [of "appendString (drop (n - 1) cs) @ dquote # rest"] IH True
          by (simp add: push_def del: unquote.simps)
        then show ?thesis
          using False pos True n_def co by (simp add: Let_def del: unquote.simps)
      next
        case ls: False
        show ?thesis
        proof (cases "take n (c # cs) = [CHR 0xE2, CHR 0x80, CHR 0xA9]")
          case True
          have "unquote ((backslash # ''u2029'' @ appendString (drop (n - 1) cs)) @ dquote # rest) =
              Some (take n (c # cs) @ coerce_utf8 (drop (n - 1) cs), rest)"
            using unquote_u_2029 [of "appendString (drop (n - 1) cs) @ dquote # rest"] IH True
            by (simp add: push_def del: unquote.simps)
          then show ?thesis
            using False pos True ls n_def co by (simp add: Let_def del: unquote.simps)
        next
          case False
          then show ?thesis
            using \<open>\<not> byte c < 0x80\<close> pos ls n_def co rune by (simp add: Let_def del: unquote.simps)
        qed
      qed
    qed
  qed
qed

lemma take_rune_drop: "0 < n \<Longrightarrow> take n (c # cs) @ drop (n - 1) cs = c # cs"
  by (cases n) auto

lemma coerce_valid: "utf8_valid s \<Longrightarrow> coerce_utf8 s = s"
proof (induction s rule: coerce_utf8.induct)
  case 1
  show ?case by simp
next
  case (2 c cs)
  show ?case
  proof (cases "byte c < 0x80")
    case True
    with 2 show ?thesis by simp
  next
    case False
    with 2 have pos: "0 < rune_len (c # cs)" and v: "utf8_valid (drop (rune_len (c # cs) - 1) cs)"
      by (simp_all add: Let_def)
    with 2 False have "coerce_utf8 (drop (rune_len (c # cs) - 1) cs) = drop (rune_len (c # cs) - 1) cs"
      by simp
    then show ?thesis
      using False pos take_rune_drop [OF pos, of c cs] by (simp add: Let_def)
  qed
qed

lemma coerce_ascii:
  "\<forall>c \<in> set (coerce_utf8 s). byte c < 0x80 \<Longrightarrow> coerce_utf8 s = s"
proof (induction s rule: coerce_utf8.induct)
  case 1
  show ?case by simp
next
  case (2 c cs)
  show ?case
  proof (cases "byte c < 0x80")
    case True
    with 2 show ?thesis by simp
  next
    case False
    show ?thesis
    proof (cases "rune_len (c # cs) = 0")
      case True
      with False "2.prems" show ?thesis
        by (simp add: replacement_def byte_def)
    next
      case pos: False
      then obtain k where "rune_len (c # cs) = Suc k"
        by (cases "rune_len (c # cs)") auto
      with False "2.prems" show ?thesis
        by (simp add: Let_def)
    qed
  qed
qed

lemma skip_ws_plain: "\<not> is_ws c \<Longrightarrow> skip_ws (c # r) = c # r"
  by simp

lemma print_json_head:
  "textual v \<Longrightarrow> \<exists>c r. print_json v = c # r \<and> \<not> is_ws c \<and> c \<noteq> CHR '']'' \<and> c \<noteq> CHR ''}''"
  by (cases v) (auto simp: enc_string_def is_ws_def dquote_def)

subsection \<open>Parsing what was printed\<close>

lemma length_join_comma:
  "sum_list (map (\<lambda>y. Suc (length y)) ys) \<le> Suc (length (join_comma ys))"
  by (induction ys rule: join_comma.induct) auto

lemma parse_string:
  "parse_value (Suc n) (enc_string s @ rest) = Some (JString (coerce_utf8 s), rest)"
  by (simp add: enc_string_def unquote_appendString del: unquote.simps)

lemma skip_ws_print: "textual v \<Longrightarrow> skip_ws (print_json v @ r) = print_json v @ r"
  using print_json_head [of v] by auto

lemma skip_ws_join:
  "vs \<noteq> [] \<Longrightarrow> \<forall>v \<in> set vs. textual v \<Longrightarrow>
   skip_ws (join_comma (map print_json vs) @ r) = join_comma (map print_json vs) @ r"
proof (cases vs)
  case Nil
  assume "vs \<noteq> []"
  with Nil show ?thesis by simp
next
  case (Cons v vs')
  assume "\<forall>v \<in> set vs. textual v"
  with Cons have "textual v" by simp
  then obtain c r' where "print_json v = c # r'" "\<not> is_ws c"
    using print_json_head by blast
  then show ?thesis
    using Cons by (cases vs') auto
qed

lemma join_comma_Cons: "ys \<noteq> [] \<Longrightarrow> join_comma (y # ys) = y @ CHR '','' # join_comma ys"
  by (cases ys) auto

lemma parse_elems_print:
  assumes "vs \<noteq> []"
    and "\<And>v n rest. v \<in> set vs \<Longrightarrow> weight v \<le> n \<Longrightarrow>
      parse_value n (print_json v @ rest) = Some (coerce_json v, rest)"
    and "\<forall>v \<in> set vs. textual v"
    and "sum_list (map (\<lambda>v. Suc (weight v)) vs) \<le> n"
  shows "parse_elems n (join_comma (map print_json vs) @ CHR '']'' # rest) =
    Some (map coerce_json vs, rest)"
  using assms
proof (induction vs arbitrary: n rule: list_nonempty_induct)
  case (single v)
  then obtain m where n: "n = Suc m" and w: "weight v \<le> m"
    by (cases n) auto
  have "parse_value m (print_json v @ CHR '']'' # rest) = Some (coerce_json v, CHR '']'' # rest)"
    using single(1) [of v m] w by simp
  then show ?case
    by (simp add: n is_ws_def)
next
  case (cons v vs)
  then obtain m where n: "n = Suc m" and w: "weight v \<le> m"
    and ws: "sum_list (map (\<lambda>v. Suc (weight v)) vs) \<le> m"
    by (cases n) auto
  have tex: "\<forall>v \<in> set vs. textual v"
    using cons.prems by simp
  have join: "join_comma (print_json v # map print_json vs) =
      print_json v @ CHR '','' # join_comma (map print_json vs)"
    using cons.hyps by (cases vs) auto
  have first: "parse_value m (print_json v @ CHR '','' # join_comma (map print_json vs) @ CHR '']'' # rest) =
      Some (coerce_json v, CHR '','' # join_comma (map print_json vs) @ CHR '']'' # rest)"
    using cons.prems(1) [of v m] w by simp
  have others: "parse_elems m (join_comma (map print_json vs) @ CHR '']'' # rest) =
      Some (map coerce_json vs, rest)"
    using cons.IH [of m] cons.prems(1) tex ws by simp
  show ?case
    using first others skip_ws_join [OF cons.hyps tex]
    by (simp add: n join is_ws_def)
qed

lemma print_member_head: "\<exists>r. print_member m = dquote # r"
  by (simp add: print_member_def enc_string_def)

lemma parse_members_print:
  assumes "ms \<noteq> []"
    and "\<And>m n rest. m \<in> set ms \<Longrightarrow> weight (snd m) \<le> n \<Longrightarrow>
      parse_value n (print_json (snd m) @ rest) = Some (coerce_json (snd m), rest)"
    and "\<forall>m \<in> set ms. textual (snd m)"
    and "sum_list (map (\<lambda>m. Suc (weight (snd m))) ms) \<le> n"
  shows "parse_members n (join_comma (map print_member ms) @ CHR ''}'' # rest) =
    Some (map (\<lambda>m. (coerce_utf8 (fst m), coerce_json (snd m))) ms, rest)"
  using assms
proof (induction ms arbitrary: n rule: list_nonempty_induct)
  case (single e)
  then obtain m where n: "n = Suc m" and w: "weight (snd e) \<le> m"
    by (cases n) auto
  have v: "parse_value m (print_json (snd e) @ CHR ''}'' # rest) =
      Some (coerce_json (snd e), CHR ''}'' # rest)"
    using single(1) [of e m] w by simp
  have tex: "textual (snd e)"
    using single by simp
  have pm: "print_member e = dquote # appendString (fst e) @ dquote # CHR '':'' # print_json (snd e)"
    by (simp add: print_member_def enc_string_def)
  show ?case
    using v skip_ws_print [OF tex]
    by (simp add: n pm unquote_appendString is_ws_def del: unquote.simps)
next
  case (cons e ms)
  then obtain m where n: "n = Suc m" and w: "weight (snd e) \<le> m"
    and ws: "sum_list (map (\<lambda>m. Suc (weight (snd m))) ms) \<le> m"
    by (cases n) auto
  have tex: "textual (snd e)" "\<forall>m \<in> set ms. textual (snd m)"
    using cons.prems by simp_all
  have join: "join_comma (print_member e # map print_member ms) =
      print_member e @ CHR '','' # join_comma (map print_member ms)"
    using cons.hyps by (cases ms) auto
  have first: "parse_value m
        (print_json (snd e) @ CHR '','' # join_comma (map print_member ms) @ CHR ''}'' # rest) =
      Some (coerce_json (snd e), CHR '','' # join_comma (map print_member ms) @ CHR ''}'' # rest)"
    using cons.prems(1) [of e m] w by simp
  have others: "parse_members m (join_comma (map print_member ms) @ CHR ''}'' # rest) =
      Some (map (\<lambda>m. (coerce_utf8 (fst m), coerce_json (snd m))) ms, rest)"
    using cons.IH [of m] cons.prems(1) tex ws by simp
  obtain r where head: "join_comma (map print_member ms) = dquote # r"
    using cons.hyps print_member_head [of "hd ms"] by (cases ms; cases "tl ms") auto
  have ws_next: "skip_ws (join_comma (map print_member ms) @ CHR ''}'' # rest) =
      join_comma (map print_member ms) @ CHR ''}'' # rest"
    by (simp add: head is_ws_def dquote_def)
  have pm: "print_member e = dquote # appendString (fst e) @ dquote # CHR '':'' # print_json (snd e)"
    by (simp add: print_member_def enc_string_def)
  show ?case
    using first others ws_next skip_ws_print [OF tex(1)] cons.hyps
    by (simp add: n join_comma_Cons pm unquote_appendString is_ws_def del: unquote.simps)
qed

lemma print_member_fun:
  "(\<lambda>m. enc_string (fst m) @ CHR '':'' # print_json (snd m)) = print_member"
  by (simp add: print_member_def fun_eq_iff)

lemma join_print_head:
  assumes "vs \<noteq> []" and "\<forall>v \<in> set vs. textual v"
  shows "\<exists>c r. join_comma (map print_json vs) = c # r \<and> \<not> is_ws c \<and> c \<noteq> CHR '']''"
proof -
  from assms obtain v vs' where vs: "vs = v # vs'" and "textual v"
    by (cases vs) auto
  then obtain c r where "print_json v = c # r" "\<not> is_ws c" "c \<noteq> CHR '']''"
    using print_json_head by blast
  then show ?thesis
    using vs by (cases vs') auto
qed

lemma join_member_head:
  assumes "ms \<noteq> []"
  shows "\<exists>r. join_comma (map print_member ms) = dquote # r"
proof -
  from assms obtain e ms' where ms: "ms = e # ms'"
    by (cases ms) auto
  obtain r where "print_member e = dquote # r"
    using print_member_head by blast
  then show ?thesis
    using ms by (cases ms') auto
qed

lemma parse_print:
  "textual v \<Longrightarrow> weight v \<le> n \<Longrightarrow>
   parse_value n (print_json v @ rest) = Some (coerce_json v, rest)"
proof (induction v arbitrary: n rest)
  case JNull
  then obtain m where "n = Suc m" by (cases n) auto
  then show ?case by (simp add: dquote_def)
next
  case (JBool b)
  then obtain m where "n = Suc m" by (cases n) auto
  then show ?case by (cases b) (simp_all add: dquote_def)
next
  case (JNumber t)
  then show ?case by simp
next
  case (JString s)
  then obtain m where "n = Suc m" by (cases n) auto
  then show ?case by (simp add: parse_string del: parse_value.simps)
next
  case (JArray vs)
  then obtain m where n: "n = Suc m" and ws: "sum_list (map (\<lambda>v. Suc (weight v)) vs) \<le> m"
    by (cases n) auto
  have tex: "\<forall>v \<in> set vs. textual v"
    using JArray.prems by (simp add: list_all_iff)
  show ?case
  proof (cases "vs = []")
    case True
    then show ?thesis by (simp add: n dquote_def is_ws_def)
  next
    case False
    have IH: "\<And>v n rest. v \<in> set vs \<Longrightarrow> weight v \<le> n \<Longrightarrow>
        parse_value n (print_json v @ rest) = Some (coerce_json v, rest)"
      using JArray.IH tex by simp
    obtain c r where head: "join_comma (map print_json vs) = c # r"
      and c: "\<not> is_ws c" "c \<noteq> CHR '']''"
      using join_print_head [OF False tex] by blast
    have "parse_elems m (join_comma (map print_json vs) @ CHR '']'' # rest) =
        Some (map coerce_json vs, rest)"
      using parse_elems_print [OF False IH tex ws] by simp
    then have "parse_elems m (c # r @ CHR '']'' # rest) = Some (map coerce_json vs, rest)"
      by (simp add: head)
    then show ?thesis
      using c by (simp add: n head dquote_def)
  qed
next
  case (JObject ms)
  then obtain m where n: "n = Suc m"
    and ws: "sum_list (map (\<lambda>m. Suc (weight (snd m))) ms) \<le> m"
    by (cases n) auto
  have tex: "\<forall>m \<in> set ms. textual (snd m)"
    using JObject.prems by (simp add: list_all_iff)
  show ?case
  proof (cases "ms = []")
    case True
    then show ?thesis by (simp add: n dquote_def is_ws_def)
  next
    case False
    have IH: "\<And>e n rest. e \<in> set ms \<Longrightarrow> weight (snd e) \<le> n \<Longrightarrow>
        parse_value n (print_json (snd e) @ rest) = Some (coerce_json (snd e), rest)"
    proof -
      fix e :: "string \<times> json" and n rest
      assume "e \<in> set ms" and "weight (snd e) \<le> n"
      moreover have "snd e \<in> Basic_BNFs.snds e"
        by (cases e) simp
      ultimately show "parse_value n (print_json (snd e) @ rest) = Some (coerce_json (snd e), rest)"
        using JObject.IH [of e "snd e" n rest] tex by simp
    qed
    obtain r where head: "join_comma (map print_member ms) = dquote # r"
      using join_member_head [OF False] by blast
    have "parse_members m (join_comma (map print_member ms) @ CHR ''}'' # rest) =
        Some (map (\<lambda>m. (coerce_utf8 (fst m), coerce_json (snd m))) ms, rest)"
      using parse_members_print [OF False IH tex ws] by simp
    then have "parse_members m (dquote # r @ CHR ''}'' # rest) =
        Some (map (\<lambda>m. (coerce_utf8 (fst m), coerce_json (snd m))) ms, rest)"
      by (simp add: head)
    then show ?thesis
      by (simp add: n print_member_fun head dquote_def is_ws_def del: parse_members.simps)
  qed
qed

lemma weight_le_length: "textual v \<Longrightarrow> weight v \<le> length (print_json v)"
proof (induction v)
  case (JArray vs)
  have "sum_list (map (\<lambda>v. Suc (weight v)) vs) \<le>
      sum_list (map (\<lambda>y. Suc (length y)) (map print_json vs))"
    unfolding map_map comp_def
    using JArray by (intro sum_list_mono) (auto simp: list_all_iff)
  also have "\<dots> \<le> Suc (length (join_comma (map print_json vs)))"
    by (rule length_join_comma)
  finally show ?case by simp
next
  case (JObject ms)
  have "sum_list (map (\<lambda>m. Suc (weight (snd m))) ms) \<le>
      sum_list (map (\<lambda>y. Suc (length y)) (map print_member ms))"
    unfolding map_map comp_def
  proof (intro sum_list_mono)
    fix e assume e: "e \<in> set ms"
    moreover have "snd e \<in> Basic_BNFs.snds e"
      by (cases e) simp
    ultimately have "weight (snd e) \<le> length (print_json (snd e))"
      using JObject by (auto simp: list_all_iff)
    then show "Suc (weight (snd e)) \<le> Suc (length (print_member e))"
      by (simp add: print_member_def)
  qed
  also have "\<dots> \<le> Suc (length (join_comma (map print_member ms)))"
    by (rule length_join_comma)
  finally show ?case by (simp add: print_member_fun)
qed (simp_all add: enc_string_def)

lemma parse_json_print:
  assumes "textual v"
  shows "parse_json (print_json v) = Some (coerce_json v)"
proof -
  have "parse_value (Suc (length (print_json v))) (print_json v @ []) = Some (coerce_json v, [])"
    using assms weight_le_length [OF assms] by (intro parse_print) auto
  moreover have "skip_ws (print_json v) = print_json v"
    using skip_ws_print [OF assms, of "[]"] by simp
  ultimately show ?thesis
    by (simp add: parse_json_def)
qed

subsection \<open>Decoding what was marshalled\<close>

lemma decode_strings_strings: "decode_strings (map (JString \<circ> f) ys) err = (map f ys, err)"
  by (induction ys arbitrary: err) auto

lemma index_roundtrip:
  "go_unmarshal_index (print_json (JArray (map JString xs))) = Inr (map coerce_utf8 xs)"
proof -
  have "textual (JArray (map JString xs))"
    by (simp add: list_all_iff)
  then have "parse_json (print_json (JArray (map JString xs))) =
      Some (coerce_json (JArray (map JString xs)))"
    by (rule parse_json_print)
  moreover have "coerce_json \<circ> JString = JString \<circ> coerce_utf8"
    by (simp add: fun_eq_iff)
  ultimately show ?thesis
    by (simp add: go_unmarshal_index_def decode_strings_strings del: print_json.simps)
qed

lemma names_refl: "names k k"
  by (simp add: names_def)

lemma foldName_ascii: "\<forall>c \<in> set k. byte c < 0x80 \<Longrightarrow> foldName k = map fold_char k"
  by (induction k) simp_all

lemma names_ascii:
  assumes "\<forall>c \<in> set k. byte c < 0x80" and "\<forall>c \<in> set f. byte c < 0x80"
  shows "names k f = (map fold_char k = map fold_char f)"
  using assms by (simp add: names_def foldName_ascii)

lemma names_facts:
  "\<not> names ''fields'' ''value''" "\<not> names ''metadata'' ''value''"
  "\<not> names ''metadata'' ''fields''" "\<not> names ''path'' ''provider''"
  "\<not> names ''tags'' ''provider''" "\<not> names ''tags'' ''path''"
  by (simp_all add: names_ascii byte_def fold_char_def char_of_def)

lemma coerce_names:
  "coerce_utf8 ''value'' = ''value''" "coerce_utf8 ''fields'' = ''fields''"
  "coerce_utf8 ''metadata'' = ''metadata''" "coerce_utf8 ''provider'' = ''provider''"
  "coerce_utf8 ''path'' = ''path''" "coerce_utf8 ''tags'' = ''tags''"
  by (simp_all add: byte_def)

lemma decode_entries_strings:
  "decode_entries (map (\<lambda>e. (f e, JString (g e))) es) m err =
     (foldl (\<lambda>m e. map_store (f e) (g e) m) m es, err)"
  by (induction es arbitrary: m) auto

lemma map_of_map_store: "map_of (map_store k v m) = (map_of m)(k \<mapsto> v)"
  by (induction m) (auto simp: fun_eq_iff)

lemma map_store_fresh: "k \<notin> fst ` set m \<Longrightarrow> map_store k v m = m @ [(k, v)]"
  by (induction m) auto

lemma foldl_store_distinct:
  "distinct (map fst es) \<Longrightarrow> fst ` set es \<inter> fst ` set m = {} \<Longrightarrow>
   foldl (\<lambda>m e. map_store (fst e) (snd e) m) m es = m @ es"
proof (induction es arbitrary: m)
  case Nil
  show ?case by simp
next
  case (Cons e es)
  have fresh: "fst e \<notin> fst ` set m"
    using Cons.prems by auto
  have "foldl (\<lambda>m e. map_store (fst e) (snd e) m) (m @ [e]) es = (m @ [e]) @ es"
    using Cons.prems by (intro Cons.IH) auto
  then show ?case
    using fresh by (simp add: map_store_fresh)
qed

lemma set_insert_entry: "set (insert_entry e es) = insert e (set es)"
  by (induction es) auto

lemma distinct_insert_entry:
  "fst e \<notin> fst ` set es \<Longrightarrow> distinct (map fst es) \<Longrightarrow> distinct (map fst (insert_entry e es))"
  by (induction es) (auto simp: set_insert_entry)

lemma map_of_insert_entry:
  "fst e \<notin> fst ` set es \<Longrightarrow> map_of (insert_entry e es) = (map_of es)(fst e \<mapsto> snd e)"
  by (induction es) (auto simp: fun_eq_iff)

lemma filter_keys: "fst ` set (filter (\<lambda>e'. fst e' \<noteq> k) es) = fst ` set es - {k}"
  by (induction es) auto

lemma map_of_filter_other:
  "k \<noteq> k0 \<Longrightarrow> map_of (filter (\<lambda>e'. fst e' \<noteq> k0) es) k = map_of es k"
  by (induction es) auto

lemma first_entries_keys: "fst ` set (first_entries m) = fst ` set m"
proof (induction m)
  case Nil
  show ?case by simp
next
  case (Cons e m)
  have "fst ` set (first_entries (e # m)) = insert (fst e) (fst ` set (first_entries m) - {fst e})"
    by (simp only: first_entries.simps list.set image_insert filter_keys)
  then show ?case
    using Cons by auto
qed

lemma distinct_first_entries: "distinct (map fst (first_entries m))"
  by (induction m) (auto simp: distinct_map_filter filter_keys)

lemma map_of_first_entries: "map_of (first_entries m) = map_of m"
proof (induction m)
  case Nil
  show ?case by simp
next
  case (Cons e m)
  show ?case
    using Cons by (cases e) (auto simp: fun_eq_iff map_of_filter_other)
qed

lemma sorted_entries_aux:
  "distinct (map fst es) \<Longrightarrow>
   set (foldr insert_entry es []) = set es \<and> distinct (map fst (foldr insert_entry es [])) \<and>
   map_of (foldr insert_entry es []) = map_of es"
proof (induction es)
  case Nil
  show ?case by simp
next
  case (Cons e es)
  then have IH: "set (foldr insert_entry es []) = set es"
    "distinct (map fst (foldr insert_entry es []))"
    "map_of (foldr insert_entry es []) = map_of es"
    by simp_all
  have fresh: "fst e \<notin> fst ` set (foldr insert_entry es [])"
    using Cons.prems IH(1) by auto
  show ?case
    using fresh IH
    by (cases e) (simp add: set_insert_entry distinct_insert_entry map_of_insert_entry)
qed

lemma sorted_entries_facts:
  "set (sorted_entries m) = set (first_entries m)"
  "distinct (map fst (sorted_entries m))"
  "map_of (sorted_entries m) = map_of m"
  using sorted_entries_aux [OF distinct_first_entries, of m]
  by (simp_all add: sorted_entries_def map_of_first_entries)

lemma textual_map: "textual (json_of_map m)"
  by (simp add: json_of_map_def list_all_iff)

lemma textual_metadata: "textual (json_of_metadata md)"
  by (simp add: json_of_metadata_def textual_map)

lemma textual_secret: "textual (json_of_secret s)"
  by (simp add: json_of_secret_def textual_map textual_metadata)

lemma decode_map_json:
  "decode_map (coerce_json (json_of_map m)) m0 err = (store_all m0 (sorted_entries m), err)"
  using decode_entries_strings
    [of "\<lambda>e. coerce_utf8 (fst e)" "\<lambda>e. coerce_utf8 (snd e)" "sorted_entries m" m0 err]
  by (simp add: json_of_map_def store_all_def comp_def)

lemma coerce_json_of_map:
  "coerce_json (json_of_map m) =
     JObject (map (\<lambda>e. (coerce_utf8 (fst e), JString (coerce_utf8 (snd e)))) (sorted_entries m))"
  by (simp add: json_of_map_def comp_def)

lemma coerce_json_of_metadata:
  "coerce_json (json_of_metadata md) =
     JObject
       ((if Tags md \<noteq> [] then [(''tags'', coerce_json (json_of_map (Tags md)))] else []) @
        (if Provider md \<noteq> [] then [(''provider'', JString (coerce_utf8 (Provider md)))] else []) @
        (if Path md \<noteq> [] then [(''path'', JString (coerce_utf8 (Path md)))] else []))"
  by (simp add: json_of_metadata_def coerce_names del: coerce_utf8.simps)

lemma decode_metadata_json:
  "decode_metadata (coerce_json (json_of_metadata md)) md0 err =
     (md0\<lparr>Provider := (if Provider md \<noteq> [] then coerce_utf8 (Provider md) else Provider md0),
          Path := (if Path md \<noteq> [] then coerce_utf8 (Path md) else Path md0),
          Tags := (if Tags md \<noteq> [] then store_all (Tags md0) (sorted_entries (Tags md))
                   else Tags md0)\<rparr>, err)"
  unfolding coerce_json_of_metadata
  by (cases "Provider md = []"; cases "Path md = []"; cases "Tags md = []")
    (simp_all add: names_refl names_facts decode_map_json del: coerce_utf8.simps)

lemma coerce_json_of_secret:
  "coerce_json (json_of_secret s) =
     JObject
       ((if Value s \<noteq> [] then [(''value'', JString (coerce_utf8 (Value s)))] else []) @
        (if Fields s \<noteq> [] then [(''fields'', coerce_json (json_of_map (Fields s)))] else []) @
        [(''metadata'', coerce_json (json_of_metadata (Metadata s)))])"
  by (simp add: json_of_secret_def coerce_names del: coerce_utf8.simps)

lemma decode_secret_json:
  "go_unmarshal_secret (print_json (json_of_secret s)) d =
     (None,
      d\<lparr>Value := (if Value s \<noteq> [] then coerce_utf8 (Value s) else Value d),
        Fields := (if Fields s \<noteq> [] then store_all (Fields d) (sorted_entries (Fields s))
                   else Fields d),
        Metadata := decoded_metadata (Metadata s) (Metadata d)\<rparr>)"
  unfolding go_unmarshal_secret_def parse_json_print [OF textual_secret] coerce_json_of_secret
  by (cases "Value s = []"; cases "Fields s = []")
    (simp_all add: names_refl names_facts decode_map_json decode_metadata_json
      decoded_metadata_def del: coerce_utf8.simps)

lemma store_all_valid:
  assumes "\<forall>e \<in> set m. utf8_valid (fst e) \<and> utf8_valid (snd e)"
  shows "store_all [] (sorted_entries m) = sorted_entries m"
proof -
  have sub: "set (sorted_entries m) \<subseteq> set m"
  proof -
    have "set (first_entries m) \<subseteq> set m"
      by (induction m) auto
    then show ?thesis
      by (simp add: sorted_entries_facts)
  qed
  have "map_store (coerce_utf8 (fst e)) (coerce_utf8 (snd e)) acc = map_store (fst e) (snd e) acc"
    if "e \<in> set (sorted_entries m)" for e acc
    using that sub assms by (auto simp: coerce_valid)
  then have "store_all [] (sorted_entries m) =
      foldl (\<lambda>acc e. map_store (fst e) (snd e) acc) [] (sorted_entries m)"
    unfolding store_all_def by (intro foldl_cong) auto
  also have "\<dots> = [] @ sorted_entries m"
    by (intro foldl_store_distinct) (simp_all add: sorted_entries_facts)
  finally show ?thesis by simp
qed

subsection \<open>Decoded strings are valid UTF-8\<close>

lemma byte_char_of: "n < 256 \<Longrightarrow> byte (char_of n) = n"
  by (simp add: byte_def)

lemma valid_after_rune:
  assumes hi: "\<not> byte c < 0x80" and n: "rune_len (c # cs) = n" and pos: "0 < n"
  shows "utf8_valid (take n (c # cs) @ Y) = utf8_valid Y"
proof -
  obtain m where m: "n = Suc m"
    using pos by (cases n) auto
  have len: "m \<le> length cs"
    using rune_len_bound [of "c # cs"] n m by simp
  have r: "rune_len (c # take m cs @ Y) = Suc m"
    using rune_len_prefix_aux [OF n pos, of Y] m by simp
  show ?thesis
    using hi r len by (simp add: m Let_def)
qed

lemma valid_after_replacement: "utf8_valid (replacement @ Y) = utf8_valid Y"
  by (simp add: replacement_def byte_def rune_len_def Let_def cont_def second_ok_def)

lemma div_4096: "r div 4096 = r div 64 div (64::nat)"
  using div_mult2_eq [of r 64 64] by simp

lemma div_262144: "r div 262144 = r div 4096 div (64::nat)"
  using div_mult2_eq [of r 4096 64] by simp

lemma t2: "0x800 \<le> r \<Longrightarrow> r div 4096 = 0 \<Longrightarrow> 32 \<le> r div 64 mod (64::nat)"
proof -
  assume a: "0x800 \<le> r" "r div 4096 = 0"
  define q where "q = r div 64"
  have "q div 64 = 0" using a(2) by (simp add: div_4096 q_def)
  then have "q mod 64 = q" by simp
  moreover have "32 \<le> q" using a(1) unfolding q_def by linarith
  ultimately show ?thesis by (simp add: q_def)
qed

lemma t3: "\<not> (0xD800 \<le> r \<and> r < 0xE000) \<Longrightarrow> r div 4096 = 13 \<Longrightarrow> r div 64 mod 64 < (32::nat)"
proof -
  assume a: "\<not> (0xD800 \<le> r \<and> r < 0xE000)" "r div 4096 = 13"
  define q where "q = r div 64"
  have q13: "q div 64 = 13" using a(2) by (simp add: div_4096 q_def)
  have "r < 0xE000" using a(2) by linarith
  with a(1) have "r < 0xD800" by simp
  then have lt: "q < 864" unfolding q_def by linarith
  define m where "m = q mod 64"
  have "q = 64 * 13 + m"
    using mult_div_mod_eq [of 64 q] q13 by (simp add: m_def)
  with lt have "m < 32" by linarith
  then show ?thesis by (simp add: q_def m_def)
qed

lemma f1: "r \<le> 0x10FFFF \<Longrightarrow> r div 262144 < (5::nat)"
  by linarith

lemma f2: "0x10000 \<le> r \<Longrightarrow> r div 262144 = 0 \<Longrightarrow> 16 \<le> r div 4096 mod (64::nat)"
proof -
  assume a: "0x10000 \<le> r" "r div 262144 = 0"
  define q where "q = r div 4096"
  have "q div 64 = 0" using a(2) by (simp add: div_262144 q_def)
  then have "q mod 64 = q" by simp
  moreover have "16 \<le> q" using a(1) unfolding q_def by linarith
  ultimately show ?thesis by (simp add: q_def)
qed

lemma f3: "r \<le> 0x10FFFF \<Longrightarrow> r div 262144 = 4 \<Longrightarrow> r div 4096 mod 64 < (16::nat)"
proof -
  assume a: "r \<le> 0x10FFFF" "r div 262144 = 4"
  define q where "q = r div 4096"
  have q4: "q div 64 = 4" using a(2) by (simp add: div_262144 q_def)
  have lt: "q < 272" using a(1) unfolding q_def by linarith
  define m where "m = q mod 64"
  have "q = 64 * 4 + m"
    using mult_div_mod_eq [of 64 q] q4 by (simp add: m_def)
  with lt have "m < 16" by linarith
  then show ?thesis by (simp add: q_def m_def)
qed


lemma mod_64: "n mod 64 < (64::nat)"
  by (rule mod_less_divisor) simp

lemma two_valid:
  "byte c0 = 0xC0 + a \<Longrightarrow> byte c1 = 0x80 + b \<Longrightarrow> 2 \<le> a \<Longrightarrow> a < 32 \<Longrightarrow> b < 64 \<Longrightarrow>
   utf8_valid ([c0, c1] @ Y) = utf8_valid Y"
  by (simp add: rune_len_def Let_def cont_def)

lemma three_valid:
  "byte c0 = 0xE0 + a \<Longrightarrow> byte c1 = 0x80 + b \<Longrightarrow> byte c2 = 0x80 + d \<Longrightarrow>
   a < 16 \<Longrightarrow> b < 64 \<Longrightarrow> d < 64 \<Longrightarrow> (a = 0 \<longrightarrow> 32 \<le> b) \<Longrightarrow> (a = 13 \<longrightarrow> b < 32) \<Longrightarrow>
   utf8_valid ([c0, c1, c2] @ Y) = utf8_valid Y"
  by (auto simp: rune_len_def Let_def cont_def second_ok_def)

lemma four_valid:
  "byte c0 = 0xF0 + a \<Longrightarrow> byte c1 = 0x80 + b \<Longrightarrow> byte c2 = 0x80 + d \<Longrightarrow>
   byte c3 = 0x80 + e \<Longrightarrow> a < 5 \<Longrightarrow> b < 64 \<Longrightarrow> d < 64 \<Longrightarrow> e < 64 \<Longrightarrow>
   (a = 0 \<longrightarrow> 16 \<le> b) \<Longrightarrow> (a = 4 \<longrightarrow> b < 16) \<Longrightarrow>
   utf8_valid ([c0, c1, c2, c3] @ Y) = utf8_valid Y"
  by (auto simp: rune_len_def Let_def cont_def second_ok_def)

lemma byte_lead: "a < 64 \<Longrightarrow> byte (char_of (0xC0 + a)) = 0xC0 + a"
  by (simp add: byte_char_of)

lemma byte_lead3: "a < 16 \<Longrightarrow> byte (char_of (0xE0 + a)) = 0xE0 + a"
  by (simp add: byte_char_of)

lemma byte_lead4: "a < 5 \<Longrightarrow> byte (char_of (0xF0 + a)) = 0xF0 + a"
  by (simp add: byte_char_of)

lemma byte_cont: "byte (char_of (0x80 + n mod 64)) = 0x80 + n mod 64"
  using mod_64 [of n] by (simp add: byte_char_of)

lemma valid_after_encodeRune: "utf8_valid (encodeRune r @ Y) = utf8_valid Y"
proof -
  consider (one) "r < 0x80" | (two) "0x80 \<le> r" "r < 0x800"
    | (bad) "0x800 \<le> r" "(0xD800 \<le> r \<and> r < 0xE000) \<or> 0x10FFFF < r"
    | (three) "0x800 \<le> r" "r < 0x10000" "\<not> (0xD800 \<le> r \<and> r < 0xE000)"
    | (four) "0x10000 \<le> r" "r \<le> 0x10FFFF"
    by linarith
  then show ?thesis
  proof cases
    case one
    then show ?thesis
      by (simp add: encodeRune_def byte_char_of)
  next
    case two
    have e: "encodeRune r = [char_of (0xC0 + r div 64), char_of (0x80 + r mod 64)]"
      using two by (simp add: encodeRune_def)
    have rng: "2 \<le> r div 64" "r div 64 < 32"
      using two by linarith+
    have "r div 64 < 64"
      using rng by simp
    note b0 = byte_lead [OF this]
    show ?thesis
      unfolding e by (rule two_valid [OF b0 byte_cont rng mod_64])
  next
    case bad
    then have "encodeRune r = replacement"
      by (auto simp: encodeRune_def)
    then show ?thesis
      by (simp add: valid_after_replacement)
  next
    case three
    have e: "encodeRune r =
        [char_of (0xE0 + r div 4096), char_of (0x80 + r div 64 mod 64), char_of (0x80 + r mod 64)]"
      using three by (auto simp: encodeRune_def)
    have a: "r div 4096 < 16"
      using three(2) by linarith
    have lo: "r div 4096 = 0 \<longrightarrow> 32 \<le> r div 64 mod 64"
      using t2 [OF three(1)] by blast
    have hi: "r div 4096 = 13 \<longrightarrow> r div 64 mod 64 < 32"
      using t3 [OF three(3)] by blast
    show ?thesis
      unfolding e
      by (rule three_valid [OF byte_lead3 [OF a] byte_cont byte_cont a mod_64 mod_64 lo hi])
  next
    case four
    have e: "encodeRune r =
        [char_of (0xF0 + r div 262144), char_of (0x80 + r div 4096 mod 64),
         char_of (0x80 + r div 64 mod 64), char_of (0x80 + r mod 64)]"
      using four by (auto simp: encodeRune_def)
    note a = f1 [OF four(2)]
    have lo: "r div 262144 = 0 \<longrightarrow> 16 \<le> r div 4096 mod 64"
      using f2 [OF four(1)] by blast
    have hi: "r div 262144 = 4 \<longrightarrow> r div 4096 mod 64 < 16"
      using f3 [OF four(2)] by blast
    show ?thesis
      unfolding e
      by (rule four_valid [OF byte_lead4 [OF a] byte_cont byte_cont byte_cont a
            mod_64 mod_64 mod_64 lo hi])
  qed
qed

lemma push_Some:
  "push d res = Some (s, r) \<longleftrightarrow> (\<exists>s'. res = Some (s', r) \<and> s = d @ s')"
  by (auto simp: push_def split: option.splits)

lemma unescape_ascii: "unescape e = Some d \<Longrightarrow> byte d < 0x80"
  by (auto simp: unescape_def dquote_def backslash_def byte_def split: if_splits)

lemma unquote_valid: "unquote cs = Some (s, r) \<Longrightarrow> utf8_valid s"
proof (induction "length cs" arbitrary: cs s r rule: less_induct)
  case less
  note IH = less.hyps
  show ?case
  proof (cases cs)
    case Nil
    with less.prems show ?thesis by simp
  next
    case (Cons c cs')
    have shorter: "utf8_valid s'" if "unquote X = Some (s', r')" "length X \<le> length cs'" for X s' r'
      using IH [of X s' r'] that Cons by simp
    have chunk: "utf8_valid s"
      if "push d (unquote X) = Some (s, r)" "length X \<le> length cs'"
        "\<And>Y. utf8_valid (d @ Y) = utf8_valid Y" for d X
    proof -
      from that(1) obtain s' where "unquote X = Some (s', r)" and s: "s = d @ s'"
        by (auto simp: push_Some)
      then have "utf8_valid s'"
        using shorter that(2) by blast
      then show ?thesis
        by (simp add: s that(3))
    qed
    from less.prems Cons have "unquote (c # cs') = Some (s, r)"
      by simp
    note u = this [unfolded unquote.simps(2)]
    show ?thesis
    proof (cases "c = dquote")
      case True
      with u show ?thesis by (simp del: unquote.simps)
    next
      case nq: False
      show ?thesis
      proof (cases "c = backslash")
        case True
        show ?thesis
        proof (cases cs')
          case Nil
          with u nq True show ?thesis by (simp del: unquote.simps)
        next
          case (Cons e t)
          show ?thesis
          proof (cases "e = CHR ''u''")
            case False
            with u nq True Cons obtain d where d: "unescape e = Some d"
              and p: "push [d] (unquote t) = Some (s, r)"
              by (cases "unescape e") (simp_all del: unquote.simps)
            have asc: "utf8_valid ([d] @ Y) = utf8_valid Y" for Y
              using unescape_ascii [OF d] by simp
            show ?thesis
              by (rule chunk [OF p _ asc]) (simp add: Cons)
          next
            case eu: True
            with u nq True Cons obtain rr where g: "getu4 (c # cs') = Some rr"
              by (cases "getu4 (c # cs')") (simp_all del: unquote.simps)
            show ?thesis
            proof (cases "0xD800 \<le> rr \<and> rr < 0xE000")
              case False
              with u nq True Cons eu g have "push (encodeRune rr) (unquote (drop 4 t)) = Some (s, r)"
                by (auto simp del: unquote.simps split: if_splits)
              then show ?thesis
                by (rule chunk [OF _ _ valid_after_encodeRune]) (simp add: Cons)
            next
              case sur: True
              have "push replacement (unquote (drop 4 t)) = Some (s, r) \<or>
                  (\<exists>q. push (encodeRune q) (unquote (drop 10 t)) = Some (s, r))"
              proof (cases "getu4 (drop 4 t)")
                case None
                with u nq True Cons eu g sur show ?thesis
                  by (simp del: unquote.simps)
              next
                case (Some rr1)
                with u nq True Cons eu g sur show ?thesis
                  by (cases "rr < 0xDC00 \<and> 0xDC00 \<le> rr1 \<and> rr1 < 0xE000")
                    (auto simp del: unquote.simps)
              qed
              then show ?thesis
              proof (elim disjE exE)
                assume "push replacement (unquote (drop 4 t)) = Some (s, r)"
                then show ?thesis
                  by (rule chunk [OF _ _ valid_after_replacement]) (simp add: Cons)
              next
                fix q
                assume "push (encodeRune q) (unquote (drop 10 t)) = Some (s, r)"
                then show ?thesis
                  by (rule chunk [OF _ _ valid_after_encodeRune]) (simp add: Cons)
              qed
            qed
          qed
        qed
      next
        case nb: False
        show ?thesis
        proof (cases "byte c < 0x80")
          case True
          with u nq nb have "push [c] (unquote cs') = Some (s, r)"
            by (simp del: unquote.simps split: if_splits)
          moreover have "utf8_valid ([c] @ Y) = utf8_valid Y" for Y
            using True by simp
          ultimately show ?thesis
            by (rule chunk [OF _ order_refl])
        next
          case hi: False
          then have n20: "\<not> byte c < 0x20"
            by simp
          show ?thesis
          proof (cases "rune_len (c # cs') = 0")
            case True
            with u nq nb hi n20 have "push replacement (unquote cs') = Some (s, r)"
              by (simp add: Let_def del: unquote.simps)
            then show ?thesis
              by (rule chunk [OF _ order_refl valid_after_replacement])
          next
            case False
            define n where "n = rune_len (c # cs')"
            with False have pos: "0 < n" by simp
            from u nq nb hi n20 False
            have "push (take n (c # cs')) (unquote (drop (n - 1) cs')) = Some (s, r)"
              by (simp add: Let_def n_def del: unquote.simps)
            then show ?thesis
              by (rule chunk [OF _ _ valid_after_rune [OF hi n_def [symmetric] pos]]) simp
          qed
        qed
      qed
    qed
  qed
qed


lemma parse_value_string: "parse_value n cs = Some (JString s, r) \<Longrightarrow> utf8_valid s"
  by (cases n; cases cs)
    (auto dest: unquote_valid simp del: unquote.simps
      split: if_splits option.splits prod.splits list.splits)

lemma parse_elems_strings:
  "parse_elems n cs = Some (vs, r) \<Longrightarrow> JString s \<in> set vs \<Longrightarrow> utf8_valid s"
proof (induction n arbitrary: cs vs r)
  case 0
  then show ?case by simp
next
  case (Suc n)
  from Suc.prems(1) obtain v r1 where v: "parse_value n cs = Some (v, r1)"
    by (auto split: option.splits)
  show ?case
  proof (cases "skip_ws r1")
    case Nil
    with Suc.prems(1) v show ?thesis by simp
  next
    case (Cons c r2)
    show ?thesis
    proof (cases "c = CHR '']''")
      case True
      with Suc.prems v Cons show ?thesis
        by (auto dest: parse_value_string)
    next
      case False
      with Suc.prems(1) v Cons obtain vs' where rest: "parse_elems n (skip_ws r2) = Some (vs', r)"
        and vs: "vs = v # vs'"
        by (auto split: if_splits option.splits)
      with Suc.prems(2) have "JString s = v \<or> JString s \<in> set vs'"
        by auto
      then show ?thesis
        using v rest Suc.IH by (auto dest: parse_value_string)
    qed
  qed
qed

lemma parse_value_array:
  "parse_value n cs = Some (JArray vs, r) \<Longrightarrow> JString s \<in> set vs \<Longrightarrow> utf8_valid s"
  by (cases n; cases cs)
    (auto dest: parse_elems_strings simp del: unquote.simps parse_elems.simps
      split: if_splits option.splits prod.splits list.splits)

lemma decode_strings_valid:
  "decode_strings vs err = (xs, e) \<Longrightarrow> \<forall>s. JString s \<in> set vs \<longrightarrow> utf8_valid s \<Longrightarrow>
   x \<in> set xs \<Longrightarrow> utf8_valid x"
proof (induction vs arbitrary: err xs e)
  case Nil
  then show ?case by simp
next
  case (Cons v vs)
  obtain y err1 where d: "decode_string v [] err = (y, err1)"
    by fastforce
  obtain ys err2 where ds: "decode_strings vs err1 = (ys, err2)"
    by fastforce
  from Cons.prems(1) d ds have xs: "xs = y # ys"
    by simp
  have "utf8_valid y"
    using d Cons.prems(2) by (cases v) auto
  moreover have "x \<in> set ys \<Longrightarrow> utf8_valid x"
    using Cons.IH [OF ds] Cons.prems(2) by simp
  ultimately show ?case
    using Cons.prems(3) xs by auto
qed

lemma index_strings_valid:
  assumes "go_unmarshal_index t = Inr index" and "x \<in> set index"
  shows "utf8_valid x"
proof (cases "parse_json t")
  case None
  with assms show ?thesis by (simp add: go_unmarshal_index_def)
next
  case (Some v)
  then obtain r where pv: "parse_value (Suc (length t)) (skip_ws t) = Some (v, r)"
    by (auto simp: parse_json_def simp del: parse_value.simps split: option.splits if_splits)
  show ?thesis
  proof (cases v)
    case (JArray vs)
    with assms(1) Some obtain e where ds: "decode_strings vs None = (index, e)"
      by (auto simp: go_unmarshal_index_def split: prod.splits option.splits)
    have "\<forall>s. JString s \<in> set vs \<longrightarrow> utf8_valid s"
      using parse_value_array pv JArray by blast
    then show ?thesis
      using decode_strings_valid [OF ds] assms(2) by blast
  qed (use assms Some in \<open>simp_all add: go_unmarshal_index_def\<close>)
qed

subsection \<open>The loops\<close>

lemma HasPrefix_prefix: "HasPrefix s pre = prefix pre s"
  by (auto simp: HasPrefix_def prefix_def take_is_prefix intro: exI [of _ "drop (length pre) s"])
    (metis append_take_drop_id)

lemma already_in_index_set: "already_in_index key index = (key \<in> set index)"
  by (induction index) auto

lemma keep_others_filter: "keep_others key index acc = acc @ filter (\<lambda>k. k \<noteq> key) index"
  by (induction index arbitrary: acc) auto

lemma collect_prefixed_filter:
  "collect_prefixed pre index acc = acc @ filter (\<lambda>k. prefix pre k) index"
  by (induction index arbitrary: acc) (auto simp: HasPrefix_prefix)

subsection \<open>The closed provider\<close>

lemma step_closed: "closed p \<Longrightarrow> snd (step J c (p, w)) = (p, w)"
  by (cases c)
    (auto simp: Provider_Get_def Provider_Set_def Provider_Delete_def Provider_Exists_def
      Provider_List_def Provider_Close_def)

lemma run_closed: "closed p \<Longrightarrow> run J cs (p, w) = (p, w)"
  by (induction cs) (auto simp: step_closed)

text \<open>
  C5. Whatever the provider was, after \<^verbatim>\<open>Close\<close> (which returns no error) it is closed;
  \<^verbatim>\<open>Get\<close>, \<^verbatim>\<open>Set\<close>, \<^verbatim>\<open>Delete\<close>, \<^verbatim>\<open>Exists\<close> and \<^verbatim>\<open>List\<close> then fail with
  \<^verbatim>\<open>ErrClosed\<close> and return the world as it was (its entries, its log of store calls, its
  fault script), a second \<^verbatim>\<open>Close\<close> succeeds and changes nothing, and no sequence of
  calls changes the provider or the world again.
\<close>

theorem closed_provider_rejects_all:
  "fst (Provider_Close p) = None \<and> closed (snd (Provider_Close p)) \<and>
   Provider_Get J (snd (Provider_Close p)) path w =
     (Inl (NewVaultError ''Get'' path ''keyring'' ErrClosed), w) \<and>
   Provider_Set J (snd (Provider_Close p)) path s w =
     (Some (NewVaultError ''Set'' path ''keyring'' ErrClosed), w) \<and>
   Provider_Delete J (snd (Provider_Close p)) path w =
     (Some (NewVaultError ''Delete'' path ''keyring'' ErrClosed), w) \<and>
   Provider_Exists (snd (Provider_Close p)) path w =
     (Inl (NewVaultError ''Exists'' path ''keyring'' ErrClosed), w) \<and>
   Provider_List J (snd (Provider_Close p)) pre w =
     (Inl (NewVaultError ''List'' pre ''keyring'' ErrClosed), w) \<and>
   Provider_Close (snd (Provider_Close p)) = (None, snd (Provider_Close p)) \<and>
   run J calls (snd (Provider_Close p), w) = (snd (Provider_Close p), w)"
  by (simp add: Provider_Get_def Provider_Set_def Provider_Delete_def Provider_Exists_def
      Provider_List_def Provider_Close_def Provider_Name_def run_closed)

subsection \<open>The store, the index and the callback\<close>

lemmas keyring_defs = keyring_Get_def keyring_Set_def keyring_Delete_def called_def fault_def

lemma keyring_Get_world:
  "snd (keyring_Get service key w) = called (KGet service key) w"
  by (simp add: keyring_Get_def split: option.splits)

lemma keyring_Get_answer:
  "fst (keyring_Get service key w) =
     (case fault w of
        Some e \<Rightarrow> Inl e
      | None \<Rightarrow> (case entries w (service, key) of None \<Rightarrow> Inl ErrNotFound | Some v \<Rightarrow> Inr v))"
  by (simp add: keyring_Get_def split: option.splits)

lemma reportIndexError_world [simp]:
  "entries (reportIndexError c op e w) = entries w"
  "accesses (reportIndexError c op e w) = accesses w"
  "faults (reportIndexError c op e w) = faults w"
  "fault (reportIndexError c op e w) = fault w"
  "reported (reportIndexError c op e w) = reported w @ (if OnIndexError c then [(op, e)] else [])"
  by (simp_all add: reportIndexError_def fault_def)

lemma called_world [simp]:
  "entries (called a w) = entries w"
  "accesses (called a w) = accesses w @ [a]"
  "faults (called a w) = tl (faults w)"
  "reported (called a w) = reported w"
  by (simp_all add: called_def)

lemma loadIndex_world:
  "entries (snd (loadIndex J c w)) = entries w"
  "accesses (snd (loadIndex J c w)) = accesses w @ [KGet (ServiceName c) indexKey]"
  "faults (snd (loadIndex J c w)) = tl (faults w)"
  by (auto simp: loadIndex_def keyring_Get_def split: option.splits sum.splits)

lemma loadIndex_reported:
  "reported (snd (loadIndex J c w)) =
     reported w @
       (if OnIndexError c then load_failure J (fst (keyring_Get (ServiceName c) indexKey w))
        else [])"
  by (auto simp: loadIndex_def keyring_Get_def load_failure_def split: option.splits sum.splits)

lemma loadIndex_index:
  "fst (loadIndex J c w) =
     (case fst (keyring_Get (ServiceName c) indexKey w) of
        Inl e \<Rightarrow> []
      | Inr t \<Rightarrow> (case unmarshal_index J t of Inl je \<Rightarrow> [] | Inr index \<Rightarrow> index))"
  by (auto simp: loadIndex_def keyring_Get_def split: option.splits sum.splits)

lemma saveIndex_reported:
  "reported (saveIndex J c index w) =
     reported w @ (if OnIndexError c then save_failure J index (fault w) else [])"
  by (auto simp: saveIndex_def keyring_Set_def save_failure_def split: option.splits sum.splits)

lemma saveIndex_accesses:
  "accesses (saveIndex J c index w) =
     accesses w @
       (case marshal_index J index of
          Inl je \<Rightarrow> []
        | Inr data \<Rightarrow> [KSet (ServiceName c) indexKey data])"
  by (auto simp: saveIndex_def keyring_Set_def split: option.splits sum.splits)

lemma saveIndex_entries:
  "entries (saveIndex J c index w) =
     (case marshal_index J index of
        Inl je \<Rightarrow> entries w
      | Inr data \<Rightarrow>
          (case fault w of
             Some e \<Rightarrow> entries w
           | None \<Rightarrow> (entries w)((ServiceName c, indexKey) \<mapsto> data)))"
  by (auto simp: saveIndex_def keyring_Set_def split: option.splits sum.splits)

lemma addToIndex_eq:
  "addToIndex J c key w =
     (if key \<in> set (fst (loadIndex J c w)) then snd (loadIndex J c w)
      else saveIndex J c (fst (loadIndex J c w) @ [key]) (snd (loadIndex J c w)))"
  by (simp add: addToIndex_def already_in_index_set split: prod.splits)

lemma removeFromIndex_eq:
  "removeFromIndex J c key w =
     saveIndex J c (filter (\<lambda>k. k \<noteq> key) (fst (loadIndex J c w))) (snd (loadIndex J c w))"
  by (simp add: removeFromIndex_def keep_others_filter split: prod.splits)

lemma go_json_simps [simp]:
  "marshal_secret go_json = go_marshal_secret"
  "unmarshal_secret go_json = go_unmarshal_secret"
  "marshal_index go_json = go_marshal_index"
  "unmarshal_index go_json = go_unmarshal_index"
  by (simp_all add: go_json_def)

lemmas sample_defs = plain_provider_def json_provider_def New_def fresh_world_def listed_world_def
  indexKey_def DefaultServiceName_def

lemma index_text_decodes:
  "go_unmarshal_index index_text = Inr [''database/prod'', ''database/staging'', ''api/github'']"
  unfolding index_text_def by code_simp

lemma garbage_does_not_decode: "go_unmarshal_index ''not json'' = Inl SyntaxError"
  by code_simp

lemma index_text_encodes:
  "go_marshal_index [''database/prod'', ''database/staging'', ''api/github''] = Inr index_text"
  unfolding index_text_def by code_simp

lemma longer_index_encodes:
  "go_marshal_index [''database/prod'', ''database/staging'', ''api/github'', ''new''] =
     Inr ''[\"database/prod\",\"database/staging\",\"api/github\",\"new\"]''"
  by code_simp

lemma one_key_encodes: "go_marshal_index [''k''] = Inr ''[\"k\"]''"
  by code_simp

lemma no_key_encodes: "go_marshal_index [] = Inr ''[]''"
  by code_simp

lemma Provider_Delete_answer:
  assumes "\<not> closed p" and "keyring_Delete (ServiceName (config p)) path w = (r, w1)"
  shows "Provider_Delete J p path w =
    (case r of
       Some e \<Rightarrow>
         if e = ErrNotFound then (None, w1)
         else (Some (NewVaultError ''Delete'' path ''keyring'' (Keyring e)), w1)
     | None \<Rightarrow> (None, if path \<noteq> indexKey then removeFromIndex J (config p) path w1 else w1))"
  using assms by (cases r) (simp_all add: Provider_Delete_def Provider_Name_def)

lemma Provider_Set_answer:
  assumes "\<not> closed p" and "encode_secret J (config p) s = Inr v"
    and "keyring_Set (ServiceName (config p)) path v w = (r, w1)"
  shows "Provider_Set J p path s w =
    (case r of
       Some e \<Rightarrow> (Some (NewVaultError ''Set'' path ''keyring'' (Keyring e)), w1)
     | None \<Rightarrow> (None, if path \<noteq> indexKey then addToIndex J (config p) path w1 else w1))"
  using assms by (cases r) (simp_all add: Provider_Set_def Provider_Name_def)

lemma Provider_List_eq:
  "\<not> closed p \<Longrightarrow>
   Provider_List J p pre w =
     (Inr (filter (\<lambda>k. prefix pre k) (fst (loadIndex J (config p) w))),
      snd (loadIndex J (config p) w))"
  by (simp add: Provider_List_def collect_prefixed_filter case_prod_beta)

subsection \<open>Failures of the index stay inside\<close>

text \<open>
  C1. On an open provider, when the secret encodes and the store accepts the write of the
  caller's path, \<^verbatim>\<open>Set\<close> returns no error, and when the store accepts the delete of the
  caller's path, \<^verbatim>\<open>Delete\<close> returns no error, whatever happens to the index afterwards.
  With a callback and a path other than the reserved key, the callback receives, after
  what it had received before, the failure of the index read (if any) followed by the
  failure of the index write (if one was attempted and failed), each once, tagged
  \<^verbatim>\<open>load\<close>, \<^verbatim>\<open>unmarshal\<close>, \<^verbatim>\<open>marshal\<close> or \<^verbatim>\<open>save\<close> with its cause; without a
  callback, or on the reserved key, nothing is reported.
\<close>

theorem index_failures_stay_inside:
  "\<not> closed p \<Longrightarrow>
   (encode_secret J (config p) s = Inr v \<and>
    keyring_Set (ServiceName (config p)) path v w = (None, w1) \<longrightarrow>
      fst (Provider_Set J p path s w) = None \<and>
      reported (snd (Provider_Set J p path s w)) =
        reported w @
          (if OnIndexError (config p) \<and> path \<noteq> indexKey then
             load_failure J (fst (keyring_Get (ServiceName (config p)) indexKey w1)) @
             (if path \<in> set (fst (loadIndex J (config p) w1)) then []
              else save_failure J (fst (loadIndex J (config p) w1) @ [path])
                     (fault (snd (loadIndex J (config p) w1))))
           else [])) \<and>
   (keyring_Delete (ServiceName (config p)) path w = (None, w1) \<longrightarrow>
      fst (Provider_Delete J p path w) = None \<and>
      reported (snd (Provider_Delete J p path w)) =
        reported w @
          (if OnIndexError (config p) \<and> path \<noteq> indexKey then
             load_failure J (fst (keyring_Get (ServiceName (config p)) indexKey w1)) @
             save_failure J (filter (\<lambda>k. k \<noteq> path) (fst (loadIndex J (config p) w1)))
               (fault (snd (loadIndex J (config p) w1)))
           else []))"
proof (intro conjI impI)
  assume op: "\<not> closed p"
  {
    assume a: "encode_secret J (config p) s = Inr v \<and>
      keyring_Set (ServiceName (config p)) path v w = (None, w1)"
    then have rep: "reported w1 = reported w"
      by (auto simp: keyring_Set_def split: option.splits)
    from a have ans: "Provider_Set J p path s w =
        (None, if path \<noteq> indexKey then addToIndex J (config p) path w1 else w1)"
      using Provider_Set_answer [OF op, of J s v path w None w1] by simp
    show "fst (Provider_Set J p path s w) = None"
      by (simp add: ans)
    show "reported (snd (Provider_Set J p path s w)) =
        reported w @
          (if OnIndexError (config p) \<and> path \<noteq> indexKey then
             load_failure J (fst (keyring_Get (ServiceName (config p)) indexKey w1)) @
             (if path \<in> set (fst (loadIndex J (config p) w1)) then []
              else save_failure J (fst (loadIndex J (config p) w1) @ [path])
                     (fault (snd (loadIndex J (config p) w1))))
           else [])"
      by (simp add: ans rep addToIndex_eq saveIndex_reported loadIndex_reported)
  }
  {
    assume a: "keyring_Delete (ServiceName (config p)) path w = (None, w1)"
    then have rep: "reported w1 = reported w"
      by (auto simp: keyring_Delete_def split: option.splits)
    from a have ans: "Provider_Delete J p path w =
        (None, if path \<noteq> indexKey then removeFromIndex J (config p) path w1 else w1)"
      using Provider_Delete_answer [OF op, of path w None w1 J] by simp
    show "fst (Provider_Delete J p path w) = None"
      by (simp add: ans)
    show "reported (snd (Provider_Delete J p path w)) =
        reported w @
          (if OnIndexError (config p) \<and> path \<noteq> indexKey then
             load_failure J (fst (keyring_Get (ServiceName (config p)) indexKey w1)) @
             save_failure J (filter (\<lambda>k. k \<noteq> path) (fst (loadIndex J (config p) w1)))
               (fault (snd (loadIndex J (config p) w1)))
           else [])"
      by (simp add: ans rep removeFromIndex_eq saveIndex_reported loadIndex_reported)
  }
qed

theorem index_failures_stay_inside_witness:
  "\<not> closed plain_provider \<and>
   encode_secret go_json (config plain_provider) \<lparr>Value = ''v'', Fields = [],
     Metadata = \<lparr>Provider = [], Path = [], Tags = []\<rparr>\<rparr> = Inr ''v'' \<and>
   fst (keyring_Set ''myapp'' ''k'' ''v'' corrupt_world) = None \<and>
   fst (Provider_Set go_json plain_provider ''k'' \<lparr>Value = ''v'', Fields = [],
     Metadata = \<lparr>Provider = [], Path = [], Tags = []\<rparr>\<rparr> corrupt_world) = None \<and>
   reported (snd (Provider_Set go_json plain_provider ''k'' \<lparr>Value = ''v'', Fields = [],
     Metadata = \<lparr>Provider = [], Path = [], Tags = []\<rparr>\<rparr> corrupt_world)) =
     [(''unmarshal'', Json SyntaxError), (''save'', Keyring (ErrBackend ''locked''))] \<and>
   fst (keyring_Delete ''myapp'' ''k'' locked_index_world) = None \<and>
   fst (Provider_Delete go_json plain_provider ''k'' locked_index_world) = None \<and>
   reported (snd (Provider_Delete go_json plain_provider ''k'' locked_index_world)) =
     [(''load'', Keyring (ErrBackend ''locked''))] \<and>
   reported (snd (Provider_Delete go_json
       (plain_provider\<lparr>config := (config plain_provider)\<lparr>OnIndexError := False\<rparr>\<rparr>) ''k''
       locked_index_world)) = []"
  using index_failures_stay_inside [of plain_provider go_json
      "\<lparr>Value = ''v'', Fields = [], Metadata = \<lparr>Provider = [], Path = [], Tags = []\<rparr>\<rparr>" "''v''"
      "''k''" corrupt_world "snd (keyring_Set ''myapp'' ''k'' ''v'' corrupt_world)"]
    index_failures_stay_inside [of plain_provider go_json
      "\<lparr>Value = ''v'', Fields = [], Metadata = \<lparr>Provider = [], Path = [], Tags = []\<rparr>\<rparr>" "''v''"
      "''k''" locked_index_world "snd (keyring_Delete ''myapp'' ''k'' locked_index_world)"]
    index_failures_stay_inside [of
      "plain_provider\<lparr>config := (config plain_provider)\<lparr>OnIndexError := False\<rparr>\<rparr>" go_json
      undefined undefined
      "''k''" locked_index_world "snd (keyring_Delete ''myapp'' ''k'' locked_index_world)"]
  by (simp add: loadIndex_def keyring_defs encode_secret_def Secret_String_def load_failure_def
      save_failure_def garbage_does_not_decode one_key_encodes no_key_encodes
      corrupt_world_def locked_index_world_def sample_defs)

subsection \<open>Listing\<close>

text \<open>
  C7. On an open provider \<^verbatim>\<open>List(prefix)\<close> returns no error and exactly the keys of the
  loaded index that begin with the prefix, in the order of the index (all of them for the
  empty prefix); the one call it makes to the store is the read of the reserved index
  entry, and the entries of the store are unchanged.
\<close>

theorem list_filters_loaded_index:
  "\<not> closed p \<Longrightarrow>
   Provider_List J p pre w =
     (Inr (filter (\<lambda>k. prefix pre k) (fst (loadIndex J (config p) w))),
      snd (loadIndex J (config p) w)) \<and>
   filter (\<lambda>k. prefix [] k) (fst (loadIndex J (config p) w)) = fst (loadIndex J (config p) w) \<and>
   accesses (snd (Provider_List J p pre w)) =
     accesses w @ [KGet (ServiceName (config p)) indexKey] \<and>
   entries (snd (Provider_List J p pre w)) = entries w"
  by (simp add: Provider_List_eq loadIndex_world)

theorem list_filters_loaded_index_witness:
  "\<not> closed plain_provider \<and>
   Provider_List go_json plain_provider ''database/'' listed_world =
     (Inr [''database/prod'', ''database/staging''],
      listed_world\<lparr>accesses := [KGet ''myapp'' indexKey]\<rparr>) \<and>
   fst (Provider_List go_json plain_provider [] listed_world) =
     Inr [''database/prod'', ''database/staging'', ''api/github'']"
  using list_filters_loaded_index [of plain_provider go_json "''database/''" listed_world]
    list_filters_loaded_index [of plain_provider go_json "[]" listed_world]
  by (simp add: loadIndex_def keyring_defs index_text_decodes sample_defs)

subsection \<open>Deleting\<close>

text \<open>
  C9. On an open provider \<^verbatim>\<open>Delete\<close> returns no error when the store answers not-found,
  and wraps any other failure of the store in an error for operation \<^verbatim>\<open>Delete\<close>, the path
  and the provider name. When the entry is absent and the store reports nothing but
  not-found on the next two calls, two deletes in a row both return no error.
\<close>

theorem delete_absent_is_success:
  "\<not> closed p \<Longrightarrow>
   (fst (keyring_Delete (ServiceName (config p)) path w) = Some ErrNotFound \<longrightarrow>
      fst (Provider_Delete J p path w) = None) \<and>
   (\<forall>e. fst (keyring_Delete (ServiceName (config p)) path w) = Some e \<and> e \<noteq> ErrNotFound \<longrightarrow>
      fst (Provider_Delete J p path w) =
        Some (NewVaultError ''Delete'' path ''keyring'' (Keyring e))) \<and>
   (entries w (ServiceName (config p), path) = None \<and>
    (\<forall>f \<in> set (take 2 (faults w)). f = None \<or> f = Some ErrNotFound) \<longrightarrow>
      fst (Provider_Delete J p path w) = None \<and>
      fst (Provider_Delete J p path (snd (Provider_Delete J p path w))) = None)"
proof (intro conjI impI allI)
  assume op: "\<not> closed p"
  obtain r w1 where k: "keyring_Delete (ServiceName (config p)) path w = (r, w1)"
    by fastforce
  note answer = Provider_Delete_answer [OF op k, of J]
  show "fst (Provider_Delete J p path w) = None"
    if "fst (keyring_Delete (ServiceName (config p)) path w) = Some ErrNotFound"
    using that by (simp add: answer k)
  show "fst (Provider_Delete J p path w) =
      Some (NewVaultError ''Delete'' path ''keyring'' (Keyring e))"
    if "fst (keyring_Delete (ServiceName (config p)) path w) = Some e \<and> e \<noteq> ErrNotFound" for e
    using that by (simp add: answer k)
  assume absent: "entries w (ServiceName (config p), path) = None \<and>
    (\<forall>f \<in> set (take 2 (faults w)). f = None \<or> f = Some ErrNotFound)"
  let ?w1 = "called (KDelete (ServiceName (config p)) path) w"
  have k1: "keyring_Delete (ServiceName (config p)) path w = (Some ErrNotFound, ?w1)"
    using absent by (cases "faults w") (auto simp: keyring_defs split: option.splits)
  have first: "Provider_Delete J p path w = (None, ?w1)"
    by (simp add: Provider_Delete_answer [OF op k1])
  show "fst (Provider_Delete J p path w) = None"
    by (simp add: first)
  have k2: "fst (keyring_Delete (ServiceName (config p)) path ?w1) = Some ErrNotFound"
    using absent
    by (cases "faults w"; cases "tl (faults w)") (auto simp: keyring_defs split: option.splits)
  obtain w2 where "keyring_Delete (ServiceName (config p)) path ?w1 = (Some ErrNotFound, w2)"
    using k2 by (cases "keyring_Delete (ServiceName (config p)) path ?w1") simp
  then show "fst (Provider_Delete J p path (snd (Provider_Delete J p path w))) = None"
    by (simp add: first Provider_Delete_answer [OF op])
qed

theorem delete_absent_is_success_witness:
  "\<not> closed plain_provider \<and>
   fst (Provider_Delete go_json plain_provider ''ghost'' fresh_world) = None \<and>
   fst (Provider_Delete go_json plain_provider ''ghost''
         (snd (Provider_Delete go_json plain_provider ''ghost'' fresh_world))) = None \<and>
   fst (Provider_Delete go_json plain_provider ''ghost''
         (fresh_world\<lparr>faults := [Some (ErrBackend ''locked'')]\<rparr>)) =
     Some (NewVaultError ''Delete'' ''ghost'' ''keyring'' (Keyring (ErrBackend ''locked'')))"
  using delete_absent_is_success [of plain_provider "''ghost''" fresh_world go_json]
    delete_absent_is_success [of plain_provider "''ghost''"
      "fresh_world\<lparr>faults := [Some (ErrBackend ''locked'')]\<rparr>" go_json]
  by (simp add: plain_provider_def New_def fresh_world_def keyring_defs)

text \<open>
  C10. When the store answers not-found to the delete of the path, \<^verbatim>\<open>Delete\<close> returns no
  error after that single call: the entries (the index among them) and the reports are as
  before. A stale index that names the path is still what the next \<^verbatim>\<open>List\<close> returns.
\<close>

theorem delete_absent_keeps_stale_index:
  "\<not> closed p \<Longrightarrow>
   keyring_Delete (ServiceName (config p)) path w = (Some ErrNotFound, w1) \<Longrightarrow>
   Provider_Delete J p path w = (None, w1) \<and>
   entries w1 = entries w \<and>
   accesses w1 = accesses w @ [KDelete (ServiceName (config p)) path] \<and>
   reported w1 = reported w \<and>
   (fault w1 = None \<and> entries w (ServiceName (config p), indexKey) = Some t \<and>
    unmarshal_index J t = Inr index \<and> path \<in> set index \<longrightarrow>
      fst (Provider_List J p [] w1) = Inr index)"
proof -
  assume op: "\<not> closed p"
    and k: "keyring_Delete (ServiceName (config p)) path w = (Some ErrNotFound, w1)"
  have w1: "w1 = called (KDelete (ServiceName (config p)) path) w"
    using k by (auto simp: keyring_Delete_def split: option.splits)
  have ent: "entries w1 = entries w"
    using k by (auto simp: keyring_Delete_def split: option.splits)
  have "fst (Provider_List J p [] w1) = Inr index"
    if "fault w1 = None \<and> entries w (ServiceName (config p), indexKey) = Some t \<and>
      unmarshal_index J t = Inr index \<and> path \<in> set index"
    using that op ent
    by (simp add: Provider_List_eq loadIndex_index keyring_Get_answer)
  then show ?thesis
    using ent by (simp add: Provider_Delete_answer [OF op k]) (simp add: w1)
qed

theorem delete_absent_keeps_stale_index_witness:
  "\<not> closed plain_provider \<and>
   Provider_Delete go_json plain_provider ''api/github'' listed_world =
     (None, listed_world\<lparr>accesses := [KDelete ''myapp'' ''api/github'']\<rparr>) \<and>
   fst (Provider_List go_json plain_provider []
          (listed_world\<lparr>accesses := [KDelete ''myapp'' ''api/github'']\<rparr>)) =
     Inr [''database/prod'', ''database/staging'', ''api/github'']"
  using delete_absent_keeps_stale_index [of plain_provider "''api/github''" listed_world
      "listed_world\<lparr>accesses := [KDelete ''myapp'' ''api/github'']\<rparr>" go_json index_text
      "[''database/prod'', ''database/staging'', ''api/github'']"]
  by (simp add: keyring_defs index_text_decodes sample_defs)

subsection \<open>Structured round trip\<close>

lemma addToIndex_entries_other:
  "key' \<noteq> indexKey \<Longrightarrow>
   entries (addToIndex J c key w) (ServiceName c, key') = entries w (ServiceName c, key')"
  by (simp add: addToIndex_eq saveIndex_entries loadIndex_world split: sum.splits option.splits)

lemma Provider_Set_stores:
  assumes "\<not> closed p" and "Provider_Set J p path s w = (None, w1)"
  shows "\<exists>v. encode_secret J (config p) s = Inr v \<and>
    entries w1 (ServiceName (config p), path) = Some v"
proof (cases "encode_secret J (config p) s")
  case (Inl e)
  with assms show ?thesis
    by (simp add: Provider_Set_def)
next
  case (Inr v)
  obtain r w' where k: "keyring_Set (ServiceName (config p)) path v w = (r, w')"
    by fastforce
  from assms Inr k have r: "r = None"
    and w1: "w1 = (if path \<noteq> indexKey then addToIndex J (config p) path w' else w')"
    by (cases r; simp add: Provider_Set_answer [OF assms(1) Inr k])+
  from k r have "entries w' (ServiceName (config p), path) = Some v"
    by (auto simp: keyring_Set_def split: option.splits)
  then show ?thesis
    using Inr w1 by (cases "path = indexKey") (simp_all add: addToIndex_entries_other)
qed

lemma Provider_Get_stored:
  assumes "\<not> closed p" and "fault w = None"
    and "entries w (ServiceName (config p), path) = Some v"
  shows "Provider_Get J p path w =
    (Inr (if JSONFormat (config p) then
            (case unmarshal_secret J v (stamped path) of
               (Some je, secret') \<Rightarrow> secret'\<lparr>Value := v\<rparr>
             | (None, secret') \<Rightarrow> secret')
          else (stamped path)\<lparr>Value := v\<rparr>),
     called (KGet (ServiceName (config p)) path) w)"
  using assms
  by (simp add: Provider_Get_def keyring_Get_def stamped_def Provider_Name_def Let_def
      split: prod.splits option.splits)

lemma Provider_Set_fresh:
  "Provider_Set go_json json_provider path s fresh_world =
     (None, if path \<noteq> indexKey then
              addToIndex go_json (config json_provider) path
                (snd (keyring_Set ''myapp'' path (print_json (json_of_secret s)) fresh_world))
            else snd (keyring_Set ''myapp'' path (print_json (json_of_secret s)) fresh_world))"
  by (simp add: Provider_Set_def encode_secret_def go_marshal_secret_def json_provider_def
      New_def fresh_world_def keyring_Set_def fault_def)

lemma faults_addToIndex: "faults w = [] \<Longrightarrow> faults (addToIndex J c key w) = []"
  by (simp add: addToIndex_eq loadIndex_world saveIndex_def keyring_Set_def
      split: sum.splits option.splits prod.splits)

lemma Provider_Set_fresh_faults:
  "fault (snd (Provider_Set go_json json_provider path s fresh_world)) = None"
proof -
  have "faults (snd (Provider_Set go_json json_provider path s fresh_world)) = []"
    by (subst Provider_Set_fresh)
      (simp add: faults_addToIndex keyring_Set_def fault_def fresh_world_def)
  then show ?thesis
    by (simp add: fault_def)
qed

lemma db_creds_text: "text_secret db_creds"
  by (simp add: text_secret_def db_creds_def byte_def)

text \<open>
  C4 (as amended). On an open provider in structured mode, for a secret whose primary value,
  field names and field values are valid UTF-8: when \<^verbatim>\<open>Set\<close> returned no error and the
  store answers the next call, \<^verbatim>\<open>Get\<close> on the same path returns a secret with the same
  primary value and the same field map. (A string that is not valid UTF-8 comes back with
  each offending byte replaced by U+FFFD.)
\<close>

theorem structured_roundtrip:
  assumes "\<not> closed p" and "JSONFormat (config p)" and "text_secret s"
    and "Provider_Set go_json p path s w = (None, w1)" and "fault w1 = None"
  shows "\<exists>s'. Provider_Get go_json p path w1 =
      (Inr s', called (KGet (ServiceName (config p)) path) w1) \<and>
    Value s' = Value s \<and> map_of (Fields s') = map_of (Fields s)"
proof -
  have enc: "encode_secret go_json (config p) s = Inr (print_json (json_of_secret s))"
    using assms(2) by (simp add: encode_secret_def go_marshal_secret_def)
  with Provider_Set_stores [OF assms(1,4)]
  have stored: "entries w1 (ServiceName (config p), path) = Some (print_json (json_of_secret s))"
    by simp
  let ?s' = "(stamped path)
      \<lparr>Value := (if Value s \<noteq> [] then coerce_utf8 (Value s) else Value (stamped path)),
        Fields := (if Fields s \<noteq> [] then store_all (Fields (stamped path)) (sorted_entries (Fields s))
                   else Fields (stamped path)),
        Metadata := decoded_metadata (Metadata s) (Metadata (stamped path))\<rparr>"
  have get: "Provider_Get go_json p path w1 =
      (Inr ?s', called (KGet (ServiceName (config p)) path) w1)"
    using assms(2) by (simp add: Provider_Get_stored [OF assms(1,5) stored] decode_secret_json)
  have v: "Value ?s' = Value s"
    using assms(3) by (simp add: text_secret_def stamped_def coerce_valid)
  have f: "map_of (Fields ?s') = map_of (Fields s)"
    using assms(3) by (simp add: text_secret_def stamped_def store_all_valid sorted_entries_facts)
  show ?thesis
    using get v f by blast
qed

theorem structured_roundtrip_witness:
  "\<not> closed json_provider \<and> JSONFormat (config json_provider) \<and> text_secret db_creds \<and>
   fst (Provider_Set go_json json_provider ''db-creds'' db_creds fresh_world) = None \<and>
   (\<exists>s'. fst (Provider_Get go_json json_provider ''db-creds''
             (snd (Provider_Set go_json json_provider ''db-creds'' db_creds fresh_world))) = Inr s' \<and>
      Value s' = Value db_creds \<and> map_of (Fields s') = map_of (Fields db_creds))"
proof -
  have a: "\<not> closed json_provider" "JSONFormat (config json_provider)"
    by (simp_all add: json_provider_def New_def)
  have b: "Provider_Set go_json json_provider ''db-creds'' db_creds fresh_world =
      (None, snd (Provider_Set go_json json_provider ''db-creds'' db_creds fresh_world))"
    by (simp add: Provider_Set_fresh)
  have c: "fst (Provider_Set go_json json_provider ''db-creds'' db_creds fresh_world) = None"
    by (subst b) simp
  from structured_roundtrip [OF a db_creds_text b Provider_Set_fresh_faults]
  obtain s' where "fst (Provider_Get go_json json_provider ''db-creds''
        (snd (Provider_Set go_json json_provider ''db-creds'' db_creds fresh_world))) = Inr s'"
    and "Value s' = Value db_creds" and "map_of (Fields s') = map_of (Fields db_creds)"
    by auto
  then show ?thesis
    using a db_creds_text c by blast
qed

theorem structured_roundtrip_counterexample:
  "fst (Provider_Set go_json json_provider ''k'' binary_secret fresh_world) = None \<and>
   fst (Provider_Get go_json json_provider ''k''
         (snd (Provider_Set go_json json_provider ''k'' binary_secret fresh_world))) =
     Inr \<lparr>Value = [CHR 0xEF, CHR 0xBF, CHR 0xBD], Fields = [],
          Metadata = \<lparr>Provider = ''keyring'', Path = ''k'', Tags = []\<rparr>\<rparr>"
proof -
  have a: "\<not> closed json_provider" "JSONFormat (config json_provider)"
    "ServiceName (config json_provider) = ''myapp''"
    by (simp_all add: json_provider_def New_def)
  have b: "Provider_Set go_json json_provider ''k'' binary_secret fresh_world =
      (None, snd (Provider_Set go_json json_provider ''k'' binary_secret fresh_world))"
    by (simp add: Provider_Set_fresh)
  obtain v where "encode_secret go_json (config json_provider) binary_secret = Inr v"
    and stored: "entries (snd (Provider_Set go_json json_provider ''k'' binary_secret fresh_world))
      (ServiceName (config json_provider), ''k'') = Some v"
    using Provider_Set_stores [OF a(1) b] by blast
  then have v: "v = print_json (json_of_secret binary_secret)"
    using a(2) by (simp add: encode_secret_def go_marshal_secret_def)
  have c: "coerce_utf8 [CHR 0xFF] = [CHR 0xEF, CHR 0xBF, CHR 0xBD]"
    by (simp add: byte_def rune_len_def replacement_def)
  have set: "fst (Provider_Set go_json json_provider ''k'' binary_secret fresh_world) = None"
    by (subst b) simp
  have "fst (Provider_Get go_json json_provider ''k''
        (snd (Provider_Set go_json json_provider ''k'' binary_secret fresh_world))) =
      Inr ((stamped ''k'')
        \<lparr>Value := (if Value binary_secret \<noteq> [] then coerce_utf8 (Value binary_secret)
                    else Value (stamped ''k'')),
          Fields := (if Fields binary_secret \<noteq> []
                     then store_all (Fields (stamped ''k'')) (sorted_entries (Fields binary_secret))
                     else Fields (stamped ''k'')),
          Metadata := decoded_metadata (Metadata binary_secret) (Metadata (stamped ''k''))\<rparr>)"
    using a(2)
    by (simp add: Provider_Get_stored [OF a(1) Provider_Set_fresh_faults stored] v
        decode_secret_json)
  also have "\<dots> = Inr \<lparr>Value = [CHR 0xEF, CHR 0xBF, CHR 0xBD], Fields = [],
      Metadata = \<lparr>Provider = ''keyring'', Path = ''k'', Tags = []\<rparr>\<rparr>"
    by (simp add: binary_secret_def stamped_def decoded_metadata_def c del: coerce_utf8.simps)
  finally show ?thesis
    using set by simp
qed

subsection \<open>Plain text read in structured mode\<close>

lemma go_unmarshal_secret_fallback:
  "\<not> json_object_or_null t \<Longrightarrow> fst (go_unmarshal_secret t d) \<noteq> None \<and> snd (go_unmarshal_secret t d) = d"
  by (auto simp: json_object_or_null_def go_unmarshal_secret_def split: option.splits json.splits)

lemma Provider_Set_plain_fresh:
  "Provider_Set go_json plain_provider path s fresh_world =
     (None, if path \<noteq> indexKey then
              addToIndex go_json (config plain_provider) path
                (snd (keyring_Set ''myapp'' path (Value s) fresh_world))
            else snd (keyring_Set ''myapp'' path (Value s) fresh_world))"
  by (simp add: Provider_Set_def encode_secret_def Secret_String_def plain_provider_def
      New_def fresh_world_def keyring_Set_def fault_def)

lemma Provider_Set_plain_fresh_faults:
  "fault (snd (Provider_Set go_json plain_provider path s fresh_world)) = None"
proof -
  have "faults (snd (Provider_Set go_json plain_provider path s fresh_world)) = []"
    by (subst Provider_Set_plain_fresh)
      (simp add: faults_addToIndex keyring_Set_def fault_def fresh_world_def)
  then show ?thesis
    by (simp add: fault_def)
qed

lemma providers_facts:
  "\<not> closed plain_provider" "\<not> JSONFormat (config plain_provider)"
  "\<not> closed json_provider" "JSONFormat (config json_provider)"
  "ServiceName (config plain_provider) = ''myapp''"
  "ServiceName (config json_provider) = ''myapp''"
  by (simp_all add: plain_provider_def json_provider_def New_def)

lemma hunter2_is_no_json: "\<not> json_object_or_null ''hunter2''"
  unfolding json_object_or_null_def by code_simp

lemma braces_parse: "parse_json ''{}'' = Some (JObject [])"
  by code_simp

lemma number_value_parses:
  "parse_json ''{\"value\":5}'' = Some (JObject [(''value'', JNumber ''5'')])"
  by code_simp

lemma number_value_rejected:
  "go_unmarshal_secret ''{\"value\":5}'' d = (Some UnmarshalTypeError, d)"
  by (simp add: go_unmarshal_secret_def number_value_parses names_refl saveError_def)

text \<open>
  C2 (as amended). Let a text T be stored by \<^verbatim>\<open>Set\<close> on an open provider in plain mode,
  and read by \<^verbatim>\<open>Get\<close> on an open provider in structured mode for the same service, the
  store answering the read. \<^verbatim>\<open>Get\<close> returns no error. When \<^verbatim>\<open>json.Unmarshal\<close> reports
  an error on T, the secret returned has T as primary value and otherwise is what the decoder
  left behind; when it reports none, the secret returned is the decoded one. For a T that is
  not a JSON object and not the JSON literal \<^verbatim>\<open>null\<close> (in particular a T that is not
  well-formed JSON) the decoder reports an error and leaves the secret untouched: the primary
  value is T, the field map is empty and the metadata carry the provider name and the path.
  (The text \<^verbatim>\<open>{}\<close> decodes without error, to an empty primary value.)
\<close>

theorem plain_text_read_structured:
  assumes "\<not> closed q" and "\<not> JSONFormat (config q)"
    and "\<not> closed p" and "JSONFormat (config p)"
    and "ServiceName (config q) = ServiceName (config p)"
    and "Provider_Set J q path s w = (None, w1)" and "fault w1 = None"
  shows "Provider_Get J p path w1 =
      (Inr (case unmarshal_secret J (Value s) (stamped path) of
              (Some je, d) \<Rightarrow> d\<lparr>Value := Value s\<rparr>
            | (None, d) \<Rightarrow> d),
       called (KGet (ServiceName (config p)) path) w1) \<and>
    (\<not> json_object_or_null (Value s) \<longrightarrow>
       Provider_Get go_json p path w1 =
         (Inr \<lparr>Value = Value s, Fields = [],
               Metadata = \<lparr>Provider = ''keyring'', Path = path, Tags = []\<rparr>\<rparr>,
          called (KGet (ServiceName (config p)) path) w1))"
proof -
  have "encode_secret J (config q) s = Inr (Value s)"
    using assms(2) by (simp add: encode_secret_def Secret_String_def)
  with Provider_Set_stores [OF assms(1,6)] assms(5)
  have stored: "entries w1 (ServiceName (config p), path) = Some (Value s)"
    by simp
  have get: "Provider_Get J p path w1 =
      (Inr (case unmarshal_secret J (Value s) (stamped path) of
              (Some je, d) \<Rightarrow> d\<lparr>Value := Value s\<rparr>
            | (None, d) \<Rightarrow> d),
       called (KGet (ServiceName (config p)) path) w1)"
    using assms(4) by (simp add: Provider_Get_stored [OF assms(3,7) stored])
  have "Provider_Get go_json p path w1 =
      (Inr \<lparr>Value = Value s, Fields = [],
            Metadata = \<lparr>Provider = ''keyring'', Path = path, Tags = []\<rparr>\<rparr>,
       called (KGet (ServiceName (config p)) path) w1)"
    if nj: "\<not> json_object_or_null (Value s)"
  proof -
    obtain e where "go_unmarshal_secret (Value s) (stamped path) = (Some e, stamped path)"
      using go_unmarshal_secret_fallback [OF nj, of "stamped path"]
      by (cases "go_unmarshal_secret (Value s) (stamped path)") auto
    then show ?thesis
      using assms(4) by (simp add: Provider_Get_stored [OF assms(3,7) stored] stamped_def)
  qed
  with get show ?thesis
    by blast
qed

theorem plain_text_read_structured_witness:
  "\<not> json_object_or_null (Value plain_text_secret) \<and>
   fst (Provider_Set go_json plain_provider ''k'' plain_text_secret fresh_world) = None \<and>
   fst (Provider_Get go_json json_provider ''k''
         (snd (Provider_Set go_json plain_provider ''k'' plain_text_secret fresh_world))) =
     Inr \<lparr>Value = ''hunter2'', Fields = [],
          Metadata = \<lparr>Provider = ''keyring'', Path = ''k'', Tags = []\<rparr>\<rparr> \<and>
   fst (Provider_Set go_json plain_provider ''k'' number_text_secret fresh_world) = None \<and>
   fst (Provider_Get go_json json_provider ''k''
         (snd (Provider_Set go_json plain_provider ''k'' number_text_secret fresh_world))) =
     Inr \<lparr>Value = ''{\"value\":5}'', Fields = [],
          Metadata = \<lparr>Provider = ''keyring'', Path = ''k'', Tags = []\<rparr>\<rparr>"
proof -
  have same: "ServiceName (config plain_provider) = ServiceName (config json_provider)"
    by (simp add: providers_facts)
  have b: "Provider_Set go_json plain_provider ''k'' s fresh_world =
      (None, snd (Provider_Set go_json plain_provider ''k'' s fresh_world))" for s
    by (simp add: Provider_Set_plain_fresh)
  have set: "fst (Provider_Set go_json plain_provider ''k'' s fresh_world) = None" for s
    by (subst b) simp
  note t = plain_text_read_structured [OF providers_facts(1,2,3,4) same b
      Provider_Set_plain_fresh_faults]
  have n: "\<not> json_object_or_null (Value plain_text_secret)"
    by (simp add: plain_text_secret_def hunter2_is_no_json)
  from t [of plain_text_secret, THEN conjunct2] n
  have one: "fst (Provider_Get go_json json_provider ''k''
        (snd (Provider_Set go_json plain_provider ''k'' plain_text_secret fresh_world))) =
      Inr \<lparr>Value = ''hunter2'', Fields = [],
          Metadata = \<lparr>Provider = ''keyring'', Path = ''k'', Tags = []\<rparr>\<rparr>"
    by (simp add: stamped_def plain_text_secret_def)
  have "unmarshal_secret go_json (Value number_text_secret) (stamped ''k'') =
      (Some UnmarshalTypeError, stamped ''k'')"
    by (simp add: number_text_secret_def number_value_rejected)
  with t [of number_text_secret, THEN conjunct1]
  have two: "fst (Provider_Get go_json json_provider ''k''
        (snd (Provider_Set go_json plain_provider ''k'' number_text_secret fresh_world))) =
      Inr \<lparr>Value = ''{\"value\":5}'', Fields = [],
          Metadata = \<lparr>Provider = ''keyring'', Path = ''k'', Tags = []\<rparr>\<rparr>"
    by (simp add: stamped_def number_text_secret_def)
  show ?thesis
    using n set one two by simp
qed

theorem plain_text_read_structured_counterexample:
  "fst (Provider_Set go_json plain_provider ''k'' json_text_secret fresh_world) = None \<and>
   fst (Provider_Get go_json json_provider ''k''
         (snd (Provider_Set go_json plain_provider ''k'' json_text_secret fresh_world))) =
     Inr \<lparr>Value = [], Fields = [],
          Metadata = \<lparr>Provider = ''keyring'', Path = ''k'', Tags = []\<rparr>\<rparr>"
proof -
  have b: "Provider_Set go_json plain_provider ''k'' json_text_secret fresh_world =
      (None, snd (Provider_Set go_json plain_provider ''k'' json_text_secret fresh_world))"
    by (simp add: Provider_Set_plain_fresh)
  have set: "fst (Provider_Set go_json plain_provider ''k'' json_text_secret fresh_world) = None"
    by (subst b) simp
  obtain v where "encode_secret go_json (config plain_provider) json_text_secret = Inr v"
    and "entries (snd (Provider_Set go_json plain_provider ''k'' json_text_secret fresh_world))
      (ServiceName (config plain_provider), ''k'') = Some v"
    using Provider_Set_stores [OF providers_facts(1) b] by blast
  then have stored: "entries (snd (Provider_Set go_json plain_provider ''k'' json_text_secret fresh_world))
      (ServiceName (config json_provider), ''k'') = Some ''{}''"
    by (simp add: encode_secret_def Secret_String_def providers_facts json_text_secret_def)
  have "go_unmarshal_secret ''{}'' (stamped ''k'') = (None, stamped ''k'')"
    by (simp add: go_unmarshal_secret_def braces_parse)
  then have "fst (Provider_Get go_json json_provider ''k''
        (snd (Provider_Set go_json plain_provider ''k'' json_text_secret fresh_world))) =
      Inr (stamped ''k'')"
    by (simp add: Provider_Get_stored [OF providers_facts(3) Provider_Set_plain_fresh_faults stored]
        providers_facts)
  then show ?thesis
    using set by (simp add: stamped_def)
qed

subsection \<open>The metadata of a secret read\<close>

text \<open>
  C3. \<^verbatim>\<open>Get\<close> builds the secret with the provider name and the requested path and then
  lets \<^verbatim>\<open>json.Unmarshal\<close> write the stored object into it, so what the object holds
  under \<^verbatim>\<open>metadata\<close> replaces the stamp. In structured mode a secret set under the path
  \<^verbatim>\<open>k\<close> with the caller's metadata (provider \<^verbatim>\<open>env\<close>, path \<^verbatim>\<open>HOME\<close>) is read
  back from \<^verbatim>\<open>k\<close> with provider \<^verbatim>\<open>env\<close> and path \<^verbatim>\<open>HOME\<close>, not with
  \<^verbatim>\<open>keyring\<close> and \<^verbatim>\<open>k\<close>. The same two calls in plain mode return \<^verbatim>\<open>keyring\<close>
  and \<^verbatim>\<open>k\<close>.
\<close>

theorem stored_metadata_replaces_stamp:
  "fst (Provider_Set go_json json_provider ''k'' foreign_secret fresh_world) = None \<and>
   fst (Provider_Get go_json json_provider ''k''
         (snd (Provider_Set go_json json_provider ''k'' foreign_secret fresh_world))) =
     Inr \<lparr>Value = ''v'', Fields = [],
          Metadata = \<lparr>Provider = ''env'', Path = ''HOME'', Tags = []\<rparr>\<rparr> \<and>
   fst (Provider_Set go_json plain_provider ''k'' foreign_secret fresh_world) = None \<and>
   fst (Provider_Get go_json plain_provider ''k''
         (snd (Provider_Set go_json plain_provider ''k'' foreign_secret fresh_world))) =
     Inr \<lparr>Value = ''v'', Fields = [],
          Metadata = \<lparr>Provider = ''keyring'', Path = ''k'', Tags = []\<rparr>\<rparr>"
proof -
  let ?u = "snd (Provider_Set go_json plain_provider ''k'' foreign_secret fresh_world)"
  have pb: "Provider_Set go_json plain_provider ''k'' foreign_secret fresh_world = (None, ?u)"
    by (simp add: Provider_Set_plain_fresh)
  have pset: "fst (Provider_Set go_json plain_provider ''k'' foreign_secret fresh_world) = None"
    by (subst pb) simp
  obtain t where "encode_secret go_json (config plain_provider) foreign_secret = Inr t"
    and "entries ?u (ServiceName (config plain_provider), ''k'') = Some t"
    using Provider_Set_stores [OF providers_facts(1) pb] by blast
  then have "entries ?u (ServiceName (config plain_provider), ''k'') = Some ''v''"
    by (simp add: encode_secret_def Secret_String_def providers_facts foreign_secret_def)
  then have plain: "fst (Provider_Get go_json plain_provider ''k'' ?u) =
      Inr \<lparr>Value = ''v'', Fields = [],
          Metadata = \<lparr>Provider = ''keyring'', Path = ''k'', Tags = []\<rparr>\<rparr>"
    by (simp add: Provider_Get_stored [OF providers_facts(1) Provider_Set_plain_fresh_faults]
        providers_facts stamped_def)
  let ?w = "snd (Provider_Set go_json json_provider ''k'' foreign_secret fresh_world)"
  have b: "Provider_Set go_json json_provider ''k'' foreign_secret fresh_world = (None, ?w)"
    by (simp add: Provider_Set_fresh)
  have set: "fst (Provider_Set go_json json_provider ''k'' foreign_secret fresh_world) = None"
    by (subst b) simp
  obtain v where "encode_secret go_json (config json_provider) foreign_secret = Inr v"
    and stored: "entries ?w (ServiceName (config json_provider), ''k'') = Some v"
    using Provider_Set_stores [OF providers_facts(3) b] by blast
  then have v: "v = print_json (json_of_secret foreign_secret)"
    by (simp add: encode_secret_def go_marshal_secret_def providers_facts)
  have "fst (Provider_Get go_json json_provider ''k'' ?w) =
      Inr ((stamped ''k'')
        \<lparr>Value := (if Value foreign_secret \<noteq> [] then coerce_utf8 (Value foreign_secret)
                    else Value (stamped ''k'')),
          Fields := (if Fields foreign_secret \<noteq> []
                     then store_all (Fields (stamped ''k'')) (sorted_entries (Fields foreign_secret))
                     else Fields (stamped ''k'')),
          Metadata := decoded_metadata (Metadata foreign_secret) (Metadata (stamped ''k''))\<rparr>)"
    by (simp add: Provider_Get_stored [OF providers_facts(3) Provider_Set_fresh_faults stored] v
        decode_secret_json providers_facts)
  also have "\<dots> = Inr \<lparr>Value = ''v'', Fields = [],
      Metadata = \<lparr>Provider = ''env'', Path = ''HOME'', Tags = []\<rparr>\<rparr>"
    by (simp add: foreign_secret_def stamped_def decoded_metadata_def byte_def)
  finally show ?thesis
    using set pset plain by simp
qed

subsection \<open>Adding to and removing from the index\<close>

lemma loadIndex_no_fault:
  "faults w = [] \<Longrightarrow> fst (loadIndex J c w) =
     (case entries w (ServiceName c, indexKey) of
        None \<Rightarrow> []
      | Some t \<Rightarrow> (case unmarshal_index J t of Inl je \<Rightarrow> [] | Inr index \<Rightarrow> index))"
  by (simp add: loadIndex_index keyring_Get_answer fault_def split: option.splits)

lemma saveIndex_faults: "faults w = [] \<Longrightarrow> faults (saveIndex J c xs w) = []"
  by (simp add: saveIndex_def keyring_Set_def split: sum.splits option.splits prod.splits)

lemma loadIndex_saved:
  "faults w = [] \<Longrightarrow> fst (loadIndex go_json c (saveIndex go_json c xs w)) = map coerce_utf8 xs"
  by (simp add: loadIndex_no_fault saveIndex_faults saveIndex_entries go_marshal_index_def
      fault_def index_roundtrip del: print_json.simps)

lemma loadIndex_twice:
  "faults w = [] \<Longrightarrow> fst (loadIndex J c (snd (loadIndex J c w))) = fst (loadIndex J c w)"
  by (simp add: loadIndex_no_fault loadIndex_world)

lemma loadIndex_added:
  "faults w = [] \<Longrightarrow>
   fst (loadIndex go_json c (addToIndex go_json c key w)) =
     (if key \<in> set (fst (loadIndex go_json c w)) then fst (loadIndex go_json c w)
      else map coerce_utf8 (fst (loadIndex go_json c w) @ [key]))"
  by (simp add: addToIndex_eq loadIndex_twice loadIndex_saved loadIndex_world del: map_append)

lemma loadIndex_after_Set:
  "faults w = [] \<Longrightarrow> path \<noteq> indexKey \<Longrightarrow>
   fst (loadIndex J c (snd (keyring_Set (ServiceName c) path v w))) = fst (loadIndex J c w)"
  by (simp add: loadIndex_no_fault keyring_Set_def fault_def)

lemma Provider_Set_plain_index:
  assumes "faults w = []" and "path \<noteq> indexKey"
  shows "fst (Provider_Set go_json plain_provider path s w) = None"
    and "faults (snd (Provider_Set go_json plain_provider path s w)) = []"
    and "fst (loadIndex go_json (config plain_provider)
            (snd (Provider_Set go_json plain_provider path s w))) =
       (if path \<in> set (fst (loadIndex go_json (config plain_provider) w))
        then fst (loadIndex go_json (config plain_provider) w)
        else map coerce_utf8 (fst (loadIndex go_json (config plain_provider) w) @ [path]))"
proof -
  let ?w = "snd (keyring_Set (ServiceName (config plain_provider)) path (Value s) w)"
  have eq: "Provider_Set go_json plain_provider path s w =
      (None, addToIndex go_json (config plain_provider) path ?w)"
    using assms
    by (simp add: Provider_Set_def encode_secret_def Secret_String_def plain_provider_def
        New_def keyring_Set_def fault_def)
  have f: "faults ?w = []"
    using assms(1) by (simp add: keyring_Set_def fault_def)
  show "fst (Provider_Set go_json plain_provider path s w) = None"
    by (simp add: eq)
  show "faults (snd (Provider_Set go_json plain_provider path s w)) = []"
    by (simp add: eq faults_addToIndex [OF f])
  show "fst (loadIndex go_json (config plain_provider)
            (snd (Provider_Set go_json plain_provider path s w))) =
       (if path \<in> set (fst (loadIndex go_json (config plain_provider) w))
        then fst (loadIndex go_json (config plain_provider) w)
        else map coerce_utf8 (fst (loadIndex go_json (config plain_provider) w) @ [path]))"
    unfolding eq snd_conv loadIndex_added [OF f] loadIndex_after_Set [OF assms]
    by (rule refl)
qed

lemma stored_index_valid:
  assumes "x \<in> set (stored_index go_json c w)"
  shows "utf8_valid x"
proof (cases "entries w (ServiceName c, indexKey)")
  case None
  with assms show ?thesis by (simp add: stored_index_def)
next
  case (Some t)
  show ?thesis
  proof (cases "go_unmarshal_index t")
    case (Inl e)
    with assms Some show ?thesis by (simp add: stored_index_def)
  next
    case (Inr index)
    with assms Some have "x \<in> set index"
      by (simp add: stored_index_def)
    with Inr show ?thesis
      by (rule index_strings_valid)
  qed
qed

lemma loaded_is_stored:
  "fst (loadIndex J c w) = (if fault w = None then stored_index J c w else [])"
  by (simp add: loadIndex_index keyring_Get_answer stored_index_def split: option.splits)

lemma stored_after_load: "stored_index J c (snd (loadIndex J c w)) = stored_index J c w"
  by (simp add: stored_index_def loadIndex_world)

lemma stored_after_save:
  "stored_index go_json c (saveIndex go_json c xs w) =
     (if fault w = None then map coerce_utf8 xs else stored_index go_json c w)"
  by (simp add: stored_index_def saveIndex_entries go_marshal_index_def index_roundtrip
      del: print_json.simps split: option.splits)

lemma stored_after_add:
  assumes "utf8_valid key"
  shows "stored_index go_json c (addToIndex go_json c key w) = stored_index go_json c w \<or>
    stored_index go_json c (addToIndex go_json c key w) = [key] \<or>
    (key \<notin> set (stored_index go_json c w) \<and>
     stored_index go_json c (addToIndex go_json c key w) = stored_index go_json c w @ [key])"
proof (cases "key \<in> set (fst (loadIndex go_json c w))")
  case True
  then show ?thesis
    by (simp add: addToIndex_eq stored_after_load)
next
  case False
  let ?w1 = "snd (loadIndex go_json c w)"
  have add: "addToIndex go_json c key w = saveIndex go_json c (fst (loadIndex go_json c w) @ [key]) ?w1"
    using False by (simp add: addToIndex_eq)
  have sv: "stored_index go_json c (addToIndex go_json c key w) =
      (if fault ?w1 = None then map coerce_utf8 (fst (loadIndex go_json c w)) @ [key]
       else stored_index go_json c w)"
    unfolding add using assms by (simp add: stored_after_save stored_after_load coerce_valid)
  show ?thesis
  proof (cases "fault ?w1 = None")
    case refused: False
    with sv show ?thesis
      by presburger
  next
    case saved: True
    with sv have sv': "stored_index go_json c (addToIndex go_json c key w) =
        map coerce_utf8 (fst (loadIndex go_json c w)) @ [key]"
      by presburger
    show ?thesis
    proof (cases "fault w = None")
      case True
      then have l: "fst (loadIndex go_json c w) = stored_index go_json c w"
        by (simp add: loaded_is_stored)
      have "map coerce_utf8 (stored_index go_json c w) = stored_index go_json c w"
        by (intro map_idI coerce_valid stored_index_valid)
      then show ?thesis
        using False by (simp add: sv' l)
    next
      case False
      then have "fst (loadIndex go_json c w) = []"
        by (auto simp: loaded_is_stored)
      then show ?thesis
        by (simp add: sv')
    qed
  qed
qed

lemma count_after_add:
  assumes "utf8_valid key"
  shows "count_list (stored_index go_json c (addToIndex go_json c key w)) key \<le>
    max 1 (count_list (stored_index go_json c w) key)"
  using stored_after_add [OF assms, of c w] by (auto simp: count_list_0_iff)

lemma distinct_after_add:
  assumes "utf8_valid key" and "distinct (stored_index go_json c w)"
  shows "distinct (stored_index go_json c (addToIndex go_json c key w))"
  using stored_after_add [OF assms(1), of c w] assms(2) by auto

text \<open>
  C8 (as amended). \<^verbatim>\<open>addToIndex\<close> loads the index and does nothing more when the key is in
  the loaded index (equality of strings); otherwise it saves the index with the key appended
  at the end. \<^verbatim>\<open>removeFromIndex\<close> loads the index and saves it without any occurrence of
  the key, whether the key was there or not: when the index encodes, the write of the
  reserved entry is always issued. For a key that is valid UTF-8, whatever the store answers:
  after one \<^verbatim>\<open>addToIndex\<close>, and after two, the stored index holds the key at most once
  unless it held it more often before, and a stored index without duplicates stays without
  duplicates. (A key that is not valid UTF-8 is saved with its offending bytes replaced by
  U+FFFD, is not found by the next load, and is appended again.)
\<close>

theorem index_add_and_remove:
  "addToIndex J c key w =
     (if key \<in> set (fst (loadIndex J c w)) then snd (loadIndex J c w)
      else saveIndex J c (fst (loadIndex J c w) @ [key]) (snd (loadIndex J c w))) \<and>
   removeFromIndex J c key w =
     saveIndex J c (filter (\<lambda>k. k \<noteq> key) (fst (loadIndex J c w))) (snd (loadIndex J c w)) \<and>
   accesses (removeFromIndex J c key w) =
     accesses w @ KGet (ServiceName c) indexKey #
       (case marshal_index J (filter (\<lambda>k. k \<noteq> key) (fst (loadIndex J c w))) of
          Inl je \<Rightarrow> []
        | Inr data \<Rightarrow> [KSet (ServiceName c) indexKey data]) \<and>
   (utf8_valid key \<longrightarrow>
      count_list (stored_index go_json c (addToIndex go_json c key w)) key \<le>
        max 1 (count_list (stored_index go_json c w) key) \<and>
      count_list (stored_index go_json c (addToIndex go_json c key (addToIndex go_json c key w))) key \<le>
        max 1 (count_list (stored_index go_json c w) key) \<and>
      (distinct (stored_index go_json c w) \<longrightarrow>
         distinct (stored_index go_json c (addToIndex go_json c key w))))"
proof -
  have one: "addToIndex J c key w =
     (if key \<in> set (fst (loadIndex J c w)) then snd (loadIndex J c w)
      else saveIndex J c (fst (loadIndex J c w) @ [key]) (snd (loadIndex J c w)))"
    by (rule addToIndex_eq)
  have two: "removeFromIndex J c key w =
     saveIndex J c (filter (\<lambda>k. k \<noteq> key) (fst (loadIndex J c w))) (snd (loadIndex J c w))"
    by (rule removeFromIndex_eq)
  have three: "accesses (removeFromIndex J c key w) =
     accesses w @ KGet (ServiceName c) indexKey #
       (case marshal_index J (filter (\<lambda>k. k \<noteq> key) (fst (loadIndex J c w))) of
          Inl je \<Rightarrow> []
        | Inr data \<Rightarrow> [KSet (ServiceName c) indexKey data])"
    by (simp add: removeFromIndex_eq saveIndex_accesses loadIndex_world)
  have four: "utf8_valid key \<longrightarrow>
      count_list (stored_index go_json c (addToIndex go_json c key w)) key \<le>
        max 1 (count_list (stored_index go_json c w) key) \<and>
      count_list (stored_index go_json c (addToIndex go_json c key (addToIndex go_json c key w))) key \<le>
        max 1 (count_list (stored_index go_json c w) key) \<and>
      (distinct (stored_index go_json c w) \<longrightarrow>
         distinct (stored_index go_json c (addToIndex go_json c key w)))"
  proof (intro impI conjI)
    assume v: "utf8_valid key"
    show first: "count_list (stored_index go_json c (addToIndex go_json c key w)) key \<le>
        max 1 (count_list (stored_index go_json c w) key)"
      by (rule count_after_add [OF v])
    have "count_list (stored_index go_json c (addToIndex go_json c key (addToIndex go_json c key w))) key \<le>
        max 1 (count_list (stored_index go_json c (addToIndex go_json c key w)) key)"
      by (rule count_after_add [OF v])
    with first
    show "count_list (stored_index go_json c (addToIndex go_json c key (addToIndex go_json c key w))) key \<le>
        max 1 (count_list (stored_index go_json c w) key)"
      by linarith
    assume "distinct (stored_index go_json c w)"
    with v show "distinct (stored_index go_json c (addToIndex go_json c key w))"
      by (rule distinct_after_add)
  qed
  show ?thesis
    by (rule conjI [OF one conjI [OF two conjI [OF three four]]])
qed

lemma listed_index_stored:
  "stored_index go_json (config plain_provider) listed_world =
     [''database/prod'', ''database/staging'', ''api/github'']"
  by (simp add: stored_index_def index_text_decodes sample_defs)

theorem index_add_and_remove_witness:
  "addToIndex go_json (config plain_provider) ''api/github'' listed_world =
     listed_world\<lparr>accesses := [KGet ''myapp'' indexKey]\<rparr> \<and>
   addToIndex go_json (config plain_provider) ''new'' listed_world =
     listed_world
       \<lparr>entries := [(''myapp'', indexKey) \<mapsto>
          ''[\"database/prod\",\"database/staging\",\"api/github\",\"new\"]''],
        accesses := [KGet ''myapp'' indexKey,
          KSet ''myapp'' indexKey
            ''[\"database/prod\",\"database/staging\",\"api/github\",\"new\"]'']\<rparr> \<and>
   accesses (removeFromIndex go_json (config plain_provider) ''never there'' listed_world) =
     [KGet ''myapp'' indexKey, KSet ''myapp'' indexKey index_text] \<and>
   utf8_valid ''new'' \<and> distinct (stored_index go_json (config plain_provider) listed_world) \<and>
   count_list (stored_index go_json (config plain_provider)
       (addToIndex go_json (config plain_provider) ''new''
         (addToIndex go_json (config plain_provider) ''new'' listed_world))) ''new'' \<le> 1 \<and>
   distinct (stored_index go_json (config plain_provider)
       (addToIndex go_json (config plain_provider) ''new'' listed_world)) \<and>
   faults locked_index_world = [None, Some (ErrBackend ''locked'')] \<and> utf8_valid ''k'' \<and>
   count_list (stored_index go_json (config plain_provider)
       (addToIndex go_json (config plain_provider) ''k''
         (addToIndex go_json (config plain_provider) ''k'' locked_index_world))) ''k'' \<le> 1"
proof -
  have lf: "faults locked_index_world = [None, Some (ErrBackend ''locked'')]"
    by (simp add: locked_index_world_def fresh_world_def)
  have kv: "utf8_valid ''k''"
    by (simp add: byte_def)
  have "count_list (stored_index go_json (config plain_provider) locked_index_world) ''k'' = 0"
    by (simp add: stored_index_def locked_index_world_def fresh_world_def providers_facts
        indexKey_def)
  with index_add_and_remove [of go_json "config plain_provider" "''k''" locked_index_world,
      THEN conjunct2, THEN conjunct2, THEN conjunct2, THEN mp, OF kv]
  have locked: "count_list (stored_index go_json (config plain_provider)
       (addToIndex go_json (config plain_provider) ''k''
         (addToIndex go_json (config plain_provider) ''k'' locked_index_world))) ''k'' \<le> 1"
    by simp
  note t = index_add_and_remove [of go_json "config plain_provider" _ listed_world]
  have a: "addToIndex go_json (config plain_provider) ''api/github'' listed_world =
     listed_world\<lparr>accesses := [KGet ''myapp'' indexKey]\<rparr>"
    using t [of "''api/github''", THEN conjunct1]
    by (simp add: loadIndex_def keyring_defs index_text_decodes sample_defs)
  have b: "addToIndex go_json (config plain_provider) ''new'' listed_world =
     listed_world
       \<lparr>entries := [(''myapp'', indexKey) \<mapsto>
          ''[\"database/prod\",\"database/staging\",\"api/github\",\"new\"]''],
        accesses := [KGet ''myapp'' indexKey,
          KSet ''myapp'' indexKey
            ''[\"database/prod\",\"database/staging\",\"api/github\",\"new\"]'']\<rparr>"
    using t [of "''new''", THEN conjunct1]
    by (simp add: loadIndex_def saveIndex_def keyring_defs index_text_decodes
        longer_index_encodes sample_defs)
  have c: "accesses (removeFromIndex go_json (config plain_provider) ''never there'' listed_world) =
     [KGet ''myapp'' indexKey, KSet ''myapp'' indexKey index_text]"
    using t [of "''never there''", THEN conjunct2, THEN conjunct2, THEN conjunct1]
    by (simp add: loadIndex_def keyring_defs index_text_decodes index_text_encodes sample_defs)
  have v: "utf8_valid ''new''"
    by (simp add: byte_def)
  have d: "distinct (stored_index go_json (config plain_provider) listed_world)"
    by (simp add: listed_index_stored)
  have n: "count_list (stored_index go_json (config plain_provider) listed_world) ''new'' = 0"
    by (simp add: listed_index_stored)
  from t [of "''new''", THEN conjunct2, THEN conjunct2, THEN conjunct2, THEN mp, OF v]
  have "count_list (stored_index go_json (config plain_provider)
       (addToIndex go_json (config plain_provider) ''new''
         (addToIndex go_json (config plain_provider) ''new'' listed_world))) ''new'' \<le>
       max 1 (count_list (stored_index go_json (config plain_provider) listed_world) ''new'')"
    and "distinct (stored_index go_json (config plain_provider)
       (addToIndex go_json (config plain_provider) ''new'' listed_world))"
    using d by blast+
  then show ?thesis
    using a b c v d lf kv locked unfolding n by simp
qed

lemma fresh_index_empty: "fst (loadIndex go_json (config plain_provider) fresh_world) = []"
  by (simp add: loadIndex_no_fault fresh_world_def)

lemma coerce_high_byte:
  "coerce_utf8 [CHR 0xFF] = [CHR 0xEF, CHR 0xBF, CHR 0xBD]"
  "coerce_utf8 [CHR 0xEF, CHR 0xBF, CHR 0xBD] = [CHR 0xEF, CHR 0xBF, CHR 0xBD]"
  by (simp_all add: byte_def rune_len_def replacement_def Let_def cont_def second_ok_def)

theorem index_add_and_remove_counterexample:
  "replies go_json
     [CallSet [CHR 0xFF] plain_text_secret, CallSet [CHR 0xFF] plain_text_secret, CallList []]
     (plain_provider, fresh_world) =
   [Done None, Done None,
    Listed (Inr [[CHR 0xEF, CHR 0xBF, CHR 0xBD], [CHR 0xEF, CHR 0xBF, CHR 0xBD]])]"
proof -
  let ?k = "[CHR 0xFF]"
  let ?w1 = "snd (Provider_Set go_json plain_provider ?k plain_text_secret fresh_world)"
  let ?w2 = "snd (Provider_Set go_json plain_provider ?k plain_text_secret ?w1)"
  have k: "?k \<noteq> indexKey"
    by (simp add: indexKey_def)
  have f0: "faults fresh_world = []"
    by (simp add: fresh_world_def)
  note first = Provider_Set_plain_index [OF f0 k, of plain_text_secret]
  note second = Provider_Set_plain_index [OF first(2) k, of plain_text_secret]
  have i1: "fst (loadIndex go_json (config plain_provider) ?w1) = [[CHR 0xEF, CHR 0xBF, CHR 0xBD]]"
    unfolding first(3) fresh_index_empty by (simp add: coerce_high_byte del: coerce_utf8.simps)
  have i2: "fst (loadIndex go_json (config plain_provider) ?w2) =
      [[CHR 0xEF, CHR 0xBF, CHR 0xBD], [CHR 0xEF, CHR 0xBF, CHR 0xBD]]"
    unfolding second(3) i1 by (simp add: coerce_high_byte del: coerce_utf8.simps)
  have l: "fst (Provider_List go_json plain_provider [] ?w2) =
      Inr [[CHR 0xEF, CHR 0xBF, CHR 0xBD], [CHR 0xEF, CHR 0xBF, CHR 0xBD]]"
    by (simp add: Provider_List_eq providers_facts i2)
  show ?thesis
    by (simp add: case_prod_beta first(1) second(1) l)
qed

subsection \<open>The reserved key\<close>

lemma index_clean_cong:
  "entries w' (service, indexKey) = entries w (service, indexKey) \<Longrightarrow>
   index_clean J service w' = index_clean J service w"
  by (simp add: index_clean_def)

lemma coerce_indexKey: "coerce_utf8 x = indexKey \<Longrightarrow> x = indexKey"
proof -
  assume a: "coerce_utf8 x = indexKey"
  have "\<forall>c \<in> set indexKey. byte c < 0x80"
    by (simp add: indexKey_def byte_def)
  with a have "coerce_utf8 x = x"
    by (intro coerce_ascii) simp
  with a show ?thesis by simp
qed

lemma loaded_clean:
  "index_clean go_json (ServiceName c) w \<Longrightarrow> indexKey \<notin> set (fst (loadIndex go_json c w))"
  by (auto simp: index_clean_def loadIndex_index keyring_Get_answer
      split: option.splits sum.splits)

lemma saved_clean:
  assumes "index_clean go_json (ServiceName c) w" and "indexKey \<notin> set xs"
  shows "index_clean go_json (ServiceName c) (saveIndex go_json c xs w)"
proof -
  have "indexKey \<notin> set (map coerce_utf8 xs)"
    using assms(2) by (metis (no_types, lifting) coerce_indexKey imageE list.set_map)
  then show ?thesis
    using assms(1)
    by (auto simp: index_clean_def saveIndex_entries go_marshal_index_def index_roundtrip
        simp del: print_json.simps split: option.splits)
qed

lemma loadIndex_clean:
  "index_clean J (ServiceName c) (snd (loadIndex J c w)) = index_clean J (ServiceName c) w"
  by (intro index_clean_cong) (simp add: loadIndex_world)

lemma addToIndex_clean:
  assumes "index_clean go_json (ServiceName c) w" and "key \<noteq> indexKey"
  shows "index_clean go_json (ServiceName c) (addToIndex go_json c key w)"
  using assms loaded_clean [OF assms(1)]
  by (simp add: addToIndex_eq loadIndex_clean saved_clean)

lemma removeFromIndex_clean:
  assumes "index_clean go_json (ServiceName c) w"
  shows "index_clean go_json (ServiceName c) (removeFromIndex go_json c key w)"
  using assms loaded_clean [OF assms]
  by (simp add: removeFromIndex_eq loadIndex_clean saved_clean)

lemma keyring_Set_other:
  "key \<noteq> indexKey \<Longrightarrow>
   entries (snd (keyring_Set service key v w)) (service, indexKey) = entries w (service, indexKey)"
  by (simp add: keyring_Set_def split: option.splits)

lemma keyring_Delete_index:
  "entries (snd (keyring_Delete service key w)) (service, indexKey) = entries w (service, indexKey)
   \<or> entries (snd (keyring_Delete service key w)) (service, indexKey) = None"
  by (simp add: keyring_Delete_def split: option.splits)

lemma keyring_Delete_clean:
  "index_clean J service w \<Longrightarrow> index_clean J service (snd (keyring_Delete service key w))"
  using keyring_Delete_index [of service key w]
  by (auto simp: index_clean_def split: option.splits)

lemma keyring_Set_entries:
  "keyring_Set service key v w = (r, w') \<Longrightarrow>
   entries w' = (if r = None then (entries w)((service, key) \<mapsto> v) else entries w)"
  by (auto simp: keyring_Set_def split: option.splits)

lemma Provider_Set_clean:
  assumes "index_clean go_json (ServiceName (config p)) w"
    and "\<not> (poisons go_json (config p) (CallSet path s) \<and>
      fst (Provider_Set go_json p path s w) = None)"
  shows "index_clean go_json (ServiceName (config p)) (snd (Provider_Set go_json p path s w))"
proof (cases "closed p")
  case True
  with assms show ?thesis by (simp add: Provider_Set_def)
next
  case op: False
  show ?thesis
  proof (cases "encode_secret go_json (config p) s")
    case (Inl e)
    with assms op show ?thesis by (simp add: Provider_Set_def)
  next
    case (Inr v)
    obtain r w' where k: "keyring_Set (ServiceName (config p)) path v w = (r, w')"
      by fastforce
    note e = keyring_Set_entries [OF k]
    show ?thesis
    proof (cases "path = indexKey")
      case False
      have "index_clean go_json (ServiceName (config p)) w'"
        using assms(1) False e by (auto simp: index_clean_def)
      then show ?thesis
        using False
        by (cases r) (simp_all add: Provider_Set_answer [OF op Inr k] addToIndex_clean)
    next
      case True
      have ans: "Provider_Set go_json p path s w = (map_option (\<lambda>e. NewVaultError ''Set'' path ''keyring'' (Keyring e)) r, w')"
        using True Provider_Set_answer [OF op Inr k] by (cases r) simp_all
      have "index_clean go_json (ServiceName (config p)) w'"
      proof (cases r)
        case None
        with assms(2) ans have "\<not> poisons go_json (config p) (CallSet path s)"
          by simp
        with True Inr e None show ?thesis
          by (auto simp: index_clean_def poisons_def split: sum.splits)
      next
        case (Some err)
        with assms(1) e show ?thesis
          by (simp add: index_clean_def)
      qed
      then show ?thesis
        by (simp add: ans)
    qed
  qed
qed

lemma Provider_Delete_clean:
  assumes "index_clean go_json (ServiceName (config p)) w"
  shows "index_clean go_json (ServiceName (config p)) (snd (Provider_Delete go_json p path w))"
proof (cases "closed p")
  case True
  with assms show ?thesis by (simp add: Provider_Delete_def)
next
  case op: False
  obtain r w' where k: "keyring_Delete (ServiceName (config p)) path w = (r, w')"
    by fastforce
  have "index_clean go_json (ServiceName (config p)) w'"
    using keyring_Delete_clean [OF assms, of path] k by simp
  then show ?thesis
    by (cases r) (simp_all add: Provider_Delete_answer [OF op k] removeFromIndex_clean)
qed

lemma keyring_Get_entries: "entries (snd (keyring_Get service key w)) = entries w"
  by (simp add: keyring_Get_world)

lemma Provider_Get_entries: "entries (snd (Provider_Get J p path w)) = entries w"
proof (cases "closed p")
  case True
  then show ?thesis by (simp add: Provider_Get_def)
next
  case False
  obtain r w1 where k: "keyring_Get (ServiceName (config p)) path w = (r, w1)"
    by fastforce
  then have "entries w1 = entries w"
    using keyring_Get_entries [of "ServiceName (config p)" path w] by simp
  then show ?thesis
    using False k
    by (cases r) (simp_all add: Provider_Get_def Let_def case_prod_beta split: option.splits)
qed

lemma Provider_Exists_entries: "entries (snd (Provider_Exists p path w)) = entries w"
proof (cases "closed p")
  case True
  then show ?thesis by (simp add: Provider_Exists_def)
next
  case False
  obtain r w1 where k: "keyring_Get (ServiceName (config p)) path w = (r, w1)"
    by fastforce
  then have "entries w1 = entries w"
    using keyring_Get_entries [of "ServiceName (config p)" path w] by simp
  then show ?thesis
    using False k by (cases r) (simp_all add: Provider_Exists_def)
qed

lemma Provider_List_entries: "entries (snd (Provider_List J p pre w)) = entries w"
proof (cases "closed p")
  case True
  then show ?thesis by (simp add: Provider_List_def)
next
  case False
  then show ?thesis by (simp add: Provider_List_eq loadIndex_world)
qed

lemma step_config: "config (fst (snd (step J c (p, w)))) = config p"
  by (cases c) (simp_all add: Provider_Close_def case_prod_beta)

lemma step_clean:
  assumes "index_clean go_json (ServiceName (config p)) w"
    and "\<not> (poisons go_json (config p) c \<and> fst (step go_json c (p, w)) = Done None)"
  shows "index_clean go_json (ServiceName (config p)) (snd (snd (step go_json c (p, w))))"
proof (cases c)
  case (CallGet path)
  then show ?thesis
    using assms(1) Provider_Get_entries [of go_json p path w]
      index_clean_cong [of "snd (Provider_Get go_json p path w)" "ServiceName (config p)" w go_json]
    by (simp add: case_prod_beta)
next
  case (CallSet path s)
  then show ?thesis
    using assms Provider_Set_clean [of p w path s]
    by (simp add: case_prod_beta)
next
  case (CallDelete path)
  then show ?thesis
    using assms(1) Provider_Delete_clean [of p w path]
    by (simp add: case_prod_beta)
next
  case (CallExists path)
  then show ?thesis
    using assms(1) Provider_Exists_entries [of p path w]
      index_clean_cong [of "snd (Provider_Exists p path w)" "ServiceName (config p)" w go_json]
    by (simp add: case_prod_beta)
next
  case (CallList pre)
  then show ?thesis
    using assms(1) Provider_List_entries [of go_json p pre w]
      index_clean_cong [of "snd (Provider_List go_json p pre w)" "ServiceName (config p)" w go_json]
    by (simp add: case_prod_beta)
next
  case CallClose
  then show ?thesis
    using assms(1) by (simp add: case_prod_beta)
qed

lemma step_list_clean:
  assumes "index_clean go_json (ServiceName (config p)) w"
    and "fst (step go_json c (p, w)) = Listed (Inr ks)"
  shows "indexKey \<notin> set ks"
proof (cases c)
  case (CallList pre)
  show ?thesis
  proof (cases "closed p")
    case True
    with CallList assms(2) show ?thesis
      by (simp add: Provider_List_def)
  next
    case False
    with CallList assms(2) loaded_clean [OF assms(1)] show ?thesis
      by (auto simp: Provider_List_eq)
  qed
qed (use assms(2) in \<open>simp_all add: case_prod_beta\<close>)

lemma run_clean:
  assumes "index_clean go_json (ServiceName (config p)) w"
    and "\<not> poisoned go_json calls (p, w)"
  shows "index_clean go_json (ServiceName (config p)) (snd (run go_json calls (p, w))) \<and>
    (\<forall>r \<in> set (replies go_json calls (p, w)). \<forall>ks. r = Listed (Inr ks) \<longrightarrow> indexKey \<notin> set ks)"
  using assms
proof (induction calls arbitrary: p w)
  case Nil
  then show ?case by simp
next
  case (Cons c calls)
  obtain r p' w' where st: "step go_json c (p, w) = (r, p', w')"
    by (cases "step go_json c (p, w)") auto
  have cfg: "config p' = config p"
    using step_config [of go_json c p w] st by simp
  have clean': "index_clean go_json (ServiceName (config p')) w'"
    using step_clean [of p w c] Cons.prems st cfg by simp
  have rest: "index_clean go_json (ServiceName (config p')) (snd (run go_json calls (p', w'))) \<and>
      (\<forall>r \<in> set (replies go_json calls (p', w')). \<forall>ks. r = Listed (Inr ks) \<longrightarrow> indexKey \<notin> set ks)"
    using Cons.IH [OF clean'] Cons.prems(2) by (simp add: st)
  have first: "\<forall>ks. r = Listed (Inr ks) \<longrightarrow> indexKey \<notin> set ks"
    using step_list_clean [OF Cons.prems(1), of c] st by simp
  show ?case
    using rest first by (simp add: st cfg)
qed

lemma reserved_text_decodes: "go_unmarshal_index reserved_text = Inr [indexKey]"
  unfolding reserved_text_def indexKey_def by code_simp

lemma secret_text_is_no_index:
  "go_unmarshal_index (print_json (json_of_secret s)) = Inl UnmarshalTypeError"
  by (simp add: go_unmarshal_index_def parse_json_print [OF textual_secret] coerce_json_of_secret
      del: print_json.simps)

lemma structured_never_poisons: "JSONFormat c \<Longrightarrow> \<not> poisons go_json c call"
  by (cases call)
    (simp_all add: poisons_def encode_secret_def go_marshal_secret_def secret_text_is_no_index
      del: print_json.simps)

lemma reserved_Set_accesses:
  "\<not> closed p \<Longrightarrow>
   accesses (snd (Provider_Set J p indexKey s w)) =
     accesses w @
       (case encode_secret J (config p) s of
          Inl e \<Rightarrow> []
        | Inr v \<Rightarrow> [KSet (ServiceName (config p)) indexKey v])"
  by (simp add: Provider_Set_def keyring_Set_def split: sum.splits option.splits)

lemma reserved_Delete_accesses:
  "\<not> closed p \<Longrightarrow>
   accesses (snd (Provider_Delete J p indexKey w)) =
     accesses w @ [KDelete (ServiceName (config p)) indexKey]"
  by (simp add: Provider_Delete_def keyring_Delete_def split: option.splits)

lemma hunter2_is_no_index: "go_unmarshal_index ''hunter2'' = Inl SyntaxError"
  by code_simp

lemma unpoisoned:
  "\<forall>c \<in> set calls. \<not> poisons J (config p) c \<Longrightarrow> \<not> poisoned J calls (p, w)"
proof (induction calls arbitrary: p w)
  case Nil
  show ?case by simp
next
  case (Cons c calls)
  obtain r p' w' where st: "step J c (p, w) = (r, p', w')"
    by (cases "step J c (p, w)") auto
  have "config p' = config p"
    using step_config [of J c p w] st by simp
  with Cons.prems have "\<forall>c \<in> set calls. \<not> poisons J (config p') c"
    by simp
  then have "\<not> poisoned J calls (p', w')"
    by (rule Cons.IH)
  with Cons.prems show ?case
    by (simp add: st)
qed

lemma poisoning_spoils:
  assumes "poisons go_json (config p) c" and "fst (step go_json c (p, w)) = Done None"
  shows "\<not> index_clean go_json (ServiceName (config p)) (snd (snd (step go_json c (p, w))))"
proof -
  from assms(1) obtain s v index where c: "c = CallSet indexKey s"
    and enc: "encode_secret go_json (config p) s = Inr v"
    and dec: "go_unmarshal_index v = Inr index" and mem: "indexKey \<in> set index"
    by (auto simp: poisons_def split: call.splits sum.splits)
  from assms(2) c have ok: "fst (Provider_Set go_json p indexKey s w) = None"
    by (simp add: case_prod_beta)
  then have op: "\<not> closed p"
    by (auto simp: Provider_Set_def)
  obtain r w' where k: "keyring_Set (ServiceName (config p)) indexKey v w = (r, w')"
    by fastforce
  from ok Provider_Set_answer [OF op enc k] have r: "r = None"
    and w': "snd (Provider_Set go_json p indexKey s w) = w'"
    by (cases r; simp)+
  have "entries w' (ServiceName (config p), indexKey) = Some v"
    using keyring_Set_entries [OF k] r by simp
  then have "\<not> index_clean go_json (ServiceName (config p)) w'"
    using dec mem by (simp add: index_clean_def)
  then show ?thesis
    using c w' by (simp add: case_prod_beta)
qed

text \<open>
  C6 (as amended). Start from a world whose stored index is clean (the index entry is absent,
  or does not decode, or decodes to keys other than the reserved one) and run any sequence
  of calls that is not poisoned, that is, in which no \<^verbatim>\<open>Set\<close> on the reserved key of a
  text that decodes to an index holding the reserved key is answered with success. Then the
  stored index is clean at the end (so after every prefix of the sequence), and no
  \<^verbatim>\<open>List\<close> of the sequence returned the reserved key. Such a \<^verbatim>\<open>Set\<close>, when it is
  answered with success, does leave the stored index holding the reserved key; in structured
  mode there is none. On an open provider \<^verbatim>\<open>Set\<close> and \<^verbatim>\<open>Delete\<close> on the reserved key
  make their own call to the store and none for the index.
\<close>

theorem reserved_key_stays_out:
  assumes "index_clean go_json (ServiceName (config p)) w"
    and "\<not> poisoned go_json calls (p, w)"
  shows "index_clean go_json (ServiceName (config p)) (snd (run go_json calls (p, w))) \<and>
    (\<forall>r \<in> set (replies go_json calls (p, w)). \<forall>ks. r = Listed (Inr ks) \<longrightarrow> indexKey \<notin> set ks) \<and>
    (poisons go_json (config p) c \<and> fst (step go_json c (p, w)) = Done None \<longrightarrow>
       \<not> index_clean go_json (ServiceName (config p)) (snd (snd (step go_json c (p, w))))) \<and>
    (JSONFormat (config p) \<longrightarrow> \<not> poisons go_json (config p) c) \<and>
    (\<not> closed p \<longrightarrow>
       accesses (snd (Provider_Set go_json p indexKey s w)) =
         accesses w @
           (case encode_secret go_json (config p) s of
              Inl e \<Rightarrow> []
            | Inr v \<Rightarrow> [KSet (ServiceName (config p)) indexKey v]) \<and>
       accesses (snd (Provider_Delete go_json p indexKey w)) =
         accesses w @ [KDelete (ServiceName (config p)) indexKey])"
  using run_clean [OF assms] poisoning_spoils [of p c w]
    structured_never_poisons [of "config p" c]
    reserved_Set_accesses [of p go_json s w] reserved_Delete_accesses [of p go_json w]
  by blast

lemma late_calls_harmless: "\<not> poisoned go_json late_calls (plain_provider, fresh_world)"
  by (simp add: late_calls_def Provider_Close_def Provider_Set_def poisons_def)

lemma reserved_secret_poisons:
  "poisons go_json (config plain_provider) (CallSet indexKey reserved_secret)"
  by (simp add: poisons_def encode_secret_def Secret_String_def providers_facts
      reserved_secret_def reserved_text_decodes)

theorem reserved_key_stays_out_witness:
  "index_clean go_json (ServiceName (config plain_provider)) fresh_world \<and>
   \<not> poisoned go_json sample_calls (plain_provider, fresh_world) \<and>
   CallSet indexKey plain_text_secret \<in> set sample_calls \<and>
   index_clean go_json (ServiceName (config plain_provider))
     (snd (run go_json sample_calls (plain_provider, fresh_world))) \<and>
   Listed (Inr [indexKey]) \<notin> set (replies go_json sample_calls (plain_provider, fresh_world)) \<and>
   \<not> poisoned go_json late_calls (plain_provider, fresh_world) \<and>
   poisons go_json (config plain_provider) (CallSet indexKey reserved_secret) \<and>
   CallSet indexKey reserved_secret \<in> set late_calls \<and>
   Listed (Inr [indexKey]) \<notin> set (replies go_json late_calls (plain_provider, fresh_world)) \<and>
   fst (step go_json (CallSet indexKey reserved_secret) (plain_provider, fresh_world)) = Done None \<and>
   \<not> index_clean go_json (ServiceName (config plain_provider))
     (snd (snd (step go_json (CallSet indexKey reserved_secret) (plain_provider, fresh_world)))) \<and>
   JSONFormat (config json_provider) \<and>
   \<not> poisons go_json (config json_provider) (CallSet indexKey reserved_secret) \<and>
   \<not> closed plain_provider \<and>
   accesses (snd (Provider_Set go_json plain_provider indexKey plain_text_secret fresh_world)) =
     [KSet ''myapp'' indexKey ''hunter2''] \<and>
   accesses (snd (Provider_Delete go_json plain_provider indexKey fresh_world)) =
     [KDelete ''myapp'' indexKey]"
proof -
  have a: "index_clean go_json (ServiceName (config plain_provider)) fresh_world"
    by (simp add: index_clean_def fresh_world_def)
  have "\<forall>c \<in> set sample_calls. \<not> poisons go_json (config plain_provider) c"
    by (simp add: sample_calls_def poisons_def encode_secret_def Secret_String_def
        providers_facts plain_text_secret_def hunter2_is_no_index)
  then have b: "\<not> poisoned go_json sample_calls (plain_provider, fresh_world)"
    by (rule unpoisoned)
  have m: "CallSet indexKey plain_text_secret \<in> set sample_calls"
    "CallSet indexKey reserved_secret \<in> set late_calls"
    by (simp_all add: sample_calls_def late_calls_def)
  have j: "index_clean go_json (ServiceName (config json_provider)) fresh_world"
    by (simp add: index_clean_def fresh_world_def)
  have none: "\<not> poisoned go_json [] (json_provider, fresh_world)"
    by simp
  have ok: "fst (step go_json (CallSet indexKey reserved_secret) (plain_provider, fresh_world)) =
      Done None"
    by (simp add: Provider_Set_plain_fresh)
  note plain = reserved_key_stays_out [OF a b,
      where s = plain_text_secret and c = "CallSet indexKey reserved_secret"]
  note late = reserved_key_stays_out [OF a late_calls_harmless]
  note structured =
    reserved_key_stays_out [OF j none, where c = "CallSet indexKey reserved_secret"]
  have e: "encode_secret go_json (config plain_provider) plain_text_secret = Inr ''hunter2''"
    by (simp add: encode_secret_def Secret_String_def providers_facts plain_text_secret_def)
  from plain have c1: "index_clean go_json (ServiceName (config plain_provider))
      (snd (run go_json sample_calls (plain_provider, fresh_world)))"
    by blast
  from plain have "\<forall>r \<in> set (replies go_json sample_calls (plain_provider, fresh_world)).
      \<forall>ks. r = Listed (Inr ks) \<longrightarrow> indexKey \<notin> set ks"
    by blast
  then have c2: "Listed (Inr [indexKey]) \<notin> set (replies go_json sample_calls (plain_provider, fresh_world))"
    by fastforce
  from late have "\<forall>r \<in> set (replies go_json late_calls (plain_provider, fresh_world)).
      \<forall>ks. r = Listed (Inr ks) \<longrightarrow> indexKey \<notin> set ks"
    by blast
  then have c2': "Listed (Inr [indexKey]) \<notin> set (replies go_json late_calls (plain_provider, fresh_world))"
    by fastforce
  from plain providers_facts(1)
  have "accesses (snd (Provider_Set go_json plain_provider indexKey plain_text_secret fresh_world)) =
      accesses fresh_world @
        (case encode_secret go_json (config plain_provider) plain_text_secret of
           Inl e \<Rightarrow> []
         | Inr v \<Rightarrow> [KSet (ServiceName (config plain_provider)) indexKey v])"
    and "accesses (snd (Provider_Delete go_json plain_provider indexKey fresh_world)) =
      accesses fresh_world @ [KDelete (ServiceName (config plain_provider)) indexKey]"
    by blast+
  then have c3: "accesses (snd (Provider_Set go_json plain_provider indexKey plain_text_secret fresh_world)) =
      [KSet ''myapp'' indexKey ''hunter2'']"
    and c4: "accesses (snd (Provider_Delete go_json plain_provider indexKey fresh_world)) =
      [KDelete ''myapp'' indexKey]"
    unfolding e providers_facts(5) by (simp_all add: fresh_world_def)
  from plain reserved_secret_poisons ok
  have c6: "\<not> index_clean go_json (ServiceName (config plain_provider))
      (snd (snd (step go_json (CallSet indexKey reserved_secret) (plain_provider, fresh_world))))"
    by blast
  from structured have c5: "\<not> poisons go_json (config json_provider) (CallSet indexKey reserved_secret)"
    using providers_facts(4) by blast
  show ?thesis
    using a b m c1 c2 c2' c3 c4 c5 c6 ok late_calls_harmless reserved_secret_poisons
      providers_facts(1,4)
    by blast
qed

theorem reserved_key_stays_out_counterexample:
  "entries fresh_world (ServiceName (config plain_provider), indexKey) = None \<and>
   replies go_json [CallSet indexKey reserved_secret, CallList []] (plain_provider, fresh_world) =
     [Done None, Listed (Inr [indexKey])]"
proof -
  have set: "Provider_Set go_json plain_provider indexKey reserved_secret fresh_world =
      (None, snd (keyring_Set ''myapp'' indexKey reserved_text fresh_world))"
    by (subst Provider_Set_plain_fresh) (simp add: reserved_secret_def)
  have list: "fst (Provider_List go_json plain_provider []
        (snd (keyring_Set ''myapp'' indexKey reserved_text fresh_world))) = Inr [indexKey]"
    by (simp add: Provider_List_eq providers_facts loadIndex_index keyring_Get_answer
        keyring_Set_def fault_def fresh_world_def reserved_text_decodes)
  show ?thesis
    by (simp add: set list case_prod_beta) (simp add: fresh_world_def)
qed

end
